theory Spec2Isabelle
  imports Complex_Main "HOL-Library.Log_Nat" "HOL-Library.AList"
begin

section \<open>Data model\<close>

text \<open>
  The structs of \<^verbatim>\<open>main.go\<close>. Go strings are byte sequences, modelled as \<open>string\<close>;
  \<^verbatim>\<open>len\<close> and slicing count bytes, as \<open>length\<close> and \<open>take\<close> do. Go's \<^verbatim>\<open>int\<close> is
  taken to be 64 bits wide and is modelled by \<open>int\<close>, with the wrap-around written
  out where a value read from the input can reach it (\<open>int_add\<close>). A \<^verbatim>\<open>time.Time\<close> is
  \<open>None\<close> for the zero value and \<open>Some i\<close> for \<^verbatim>\<open>time.Unix(i, 0)\<close>. \<^verbatim>\<open>float64\<close> scores
  are modelled by \<open>real\<close>: every score of the program is a sum or product of
  non-negative integers, which \<^verbatim>\<open>float64\<close> computes exactly below \<open>2 ^ 53\<close>.
\<close>

record Author =
  Name :: string
  Email :: string
  Time :: "int option"

record Diff =
  File :: string
  Add :: int
  Delete :: int

record Commit =
  ID :: string
  Tree :: string
  Parent :: string
  Author :: Author
  Message :: "string list"
  Diff :: "Diff list"

record Reason =
  Line :: string
  Count :: int

record Target =
  Name :: string
  Commit :: "Commit list"
  Score :: real
  Reason :: "Reason list"

text \<open>
  Failures are values: \<open>ExecError\<close> is the error that running \<^verbatim>\<open>git\<close> returns, the
  other two are the run-time panics of a slice expression and of an index
  expression out of range.
\<close>

datatype error = ExecError | PanicSliceBounds | PanicIndex

section \<open>Strings\<close>

definition HasPrefix :: "string \<Rightarrow> string \<Rightarrow> bool" where
  "HasPrefix s prefix = (length prefix \<le> length s \<and> take (length prefix) s = prefix)"

definition HasSuffix :: "string \<Rightarrow> string \<Rightarrow> bool" where
  "HasSuffix s suffix =
     (length suffix \<le> length s \<and> drop (length s - length suffix) s = suffix)"

fun Join :: "string list \<Rightarrow> string \<Rightarrow> string" where
  "Join [] sep = []"
| "Join [x] sep = x"
| "Join (x # y # rest) sep = x @ sep @ Join (y # rest) sep"

text \<open>The slice expression \<^verbatim>\<open>s[:k]\<close>, which panics unless \<open>0 \<le> k \<le> len s\<close>.\<close>

definition slice_to :: "string \<Rightarrow> int \<Rightarrow> error + string" where
  "slice_to s k =
     (if 0 \<le> k \<and> k \<le> int (length s) then Inr (take (nat k) s)
      else Inl PanicSliceBounds)"

text \<open>
  \<^verbatim>\<open>strings.TrimSpace\<close> removes leading and trailing Unicode white space. On the
  bytes of a string these are the UTF-8 encodings of the code points with the
  White_Space property: the six ASCII ones, U+0085, U+00A0, U+1680, U+2000 to
  U+200A, U+2028, U+2029, U+202F, U+205F and U+3000. A byte sequence that is not
  one of these encodings is not white space, so trimming stops there.
\<close>

definition space_encodings :: "string list" where
  "space_encodings =
     [[CHR 0x09], [CHR 0x0A], [CHR 0x0B], [CHR 0x0C], [CHR 0x0D], [CHR 0x20],
      [CHR 0xC2, CHR 0x85], [CHR 0xC2, CHR 0xA0],
      [CHR 0xE1, CHR 0x9A, CHR 0x80],
      [CHR 0xE2, CHR 0x80, CHR 0x80], [CHR 0xE2, CHR 0x80, CHR 0x81],
      [CHR 0xE2, CHR 0x80, CHR 0x82], [CHR 0xE2, CHR 0x80, CHR 0x83],
      [CHR 0xE2, CHR 0x80, CHR 0x84], [CHR 0xE2, CHR 0x80, CHR 0x85],
      [CHR 0xE2, CHR 0x80, CHR 0x86], [CHR 0xE2, CHR 0x80, CHR 0x87],
      [CHR 0xE2, CHR 0x80, CHR 0x88], [CHR 0xE2, CHR 0x80, CHR 0x89],
      [CHR 0xE2, CHR 0x80, CHR 0x8A],
      [CHR 0xE2, CHR 0x80, CHR 0xA8], [CHR 0xE2, CHR 0x80, CHR 0xA9],
      [CHR 0xE2, CHR 0x80, CHR 0xAF],
      [CHR 0xE2, CHR 0x81, CHR 0x9F],
      [CHR 0xE3, CHR 0x80, CHR 0x80]]"

function trim_leading :: "string list \<Rightarrow> string \<Rightarrow> string" where
  "trim_leading encodings s =
     (case filter (\<lambda>e. e \<noteq> [] \<and> HasPrefix s e) encodings of
        [] \<Rightarrow> s
      | e # _ \<Rightarrow> trim_leading encodings (drop (length e) s))"
  by pat_completeness auto
termination
proof (relation "measure (\<lambda>(encodings, s). length s)")
  show "wf (measure (\<lambda>(encodings, s). length s))"
    by simp
next
  fix encodings :: "string list" and s e :: string and es :: "string list"
  assume "filter (\<lambda>e. e \<noteq> [] \<and> HasPrefix s e) encodings = e # es"
  then have "e \<in> set (filter (\<lambda>e. e \<noteq> [] \<and> HasPrefix s e) encodings)"
    by simp
  then have "e \<noteq> []" and "length e \<le> length s"
    by (simp_all add: HasPrefix_def)
  then show "((encodings, drop (length e) s), (encodings, s))
      \<in> measure (\<lambda>(encodings, s). length s)"
    by (cases e) simp_all
qed

declare trim_leading.simps [simp del]

definition TrimSpace :: "string \<Rightarrow> string" where
  "TrimSpace s =
     rev (trim_leading (map rev space_encodings) (rev (trim_leading space_encodings s)))"

section \<open>Regular expressions\<close>

text \<open>
  Each regular expression of the source is modelled by the function that
  \<^verbatim>\<open>FindStringSubmatch\<close> computes for it: \<open>None\<close> when the line does not match,
  otherwise the captured groups. The lines are those that \<^verbatim>\<open>bufio.Scanner\<close>
  delivers from the output of \<^verbatim>\<open>git\<close>.
\<close>

definition after_prefix :: "string \<Rightarrow> string \<Rightarrow> string option" where
  "after_prefix prefix s =
     (if HasPrefix s prefix then Some (drop (length prefix) s) else None)"

text \<open>The pattern \<^verbatim>\<open>.+\<close>: one or more bytes, none of them a line feed.\<close>

definition any_plus :: "string \<Rightarrow> bool" where
  "any_plus s = (s \<noteq> [] \<and> CHR 0x0A \<notin> set s)"

definition is_digit :: "char \<Rightarrow> bool" where
  "is_digit c = (c \<in> set ''0123456789'')"

text \<open>The class \<^verbatim>\<open>[a-zA-Z0-9_]\<close>.\<close>

definition is_word :: "char \<Rightarrow> bool" where
  "is_word c =
     (c \<in> set ''abcdefghijklmnopqrstuvwxyzABCDEFGHIJKLMNOPQRSTUVWXYZ0123456789_'')"

primrec split_on :: "char \<Rightarrow> string \<Rightarrow> string list" where
  "split_on sep [] = [[]]"
| "split_on sep (c # cs) =
     (if c = sep then [] # split_on sep cs
      else (case split_on sep cs of
              [] \<Rightarrow> [[c]]
            | w # ws \<Rightarrow> (c # w) # ws))"

text \<open>\<^verbatim>\<open>^commit (.+)$\<close>\<close>

definition commitRegexp :: "string \<Rightarrow> string option" where
  "commitRegexp line =
     (case after_prefix ''commit '' line of
        None \<Rightarrow> None
      | Some r \<Rightarrow> if any_plus r then Some r else None)"

text \<open>\<^verbatim>\<open>^tree (.+)$\<close>\<close>

definition treeRegexp :: "string \<Rightarrow> string option" where
  "treeRegexp line =
     (case after_prefix ''tree '' line of
        None \<Rightarrow> None
      | Some r \<Rightarrow> if any_plus r then Some r else None)"

text \<open>\<^verbatim>\<open>^parent (.+)$\<close>\<close>

definition parentRegexp :: "string \<Rightarrow> string option" where
  "parentRegexp line =
     (case after_prefix ''parent '' line of
        None \<Rightarrow> None
      | Some r \<Rightarrow> if any_plus r then Some r else None)"

text \<open>
  \<^verbatim>\<open>^author ([^ ]+) <([^ ]+)> ([^ ]+) [^ ]+$\<close>: after the keyword, exactly four
  non-empty fields separated by single spaces, the second one in angle brackets
  around a non-empty address. The groups are the name, the address and the
  time stamp.
\<close>

definition authorRegexp :: "string \<Rightarrow> (string \<times> string \<times> string) option" where
  "authorRegexp line =
     (case after_prefix ''author '' line of
        None \<Rightarrow> None
      | Some r \<Rightarrow>
          (case split_on CHR '' '' r of
             [name, bracketed, stamp, zone] \<Rightarrow>
               if name \<noteq> [] \<and> stamp \<noteq> [] \<and> zone \<noteq> [] \<and> 3 \<le> length bracketed \<and>
                  hd bracketed = CHR ''<'' \<and> last bracketed = CHR ''>''
               then Some (name, butlast (tl bracketed), stamp)
               else None
           | _ \<Rightarrow> None))"

text \<open>\<^verbatim>\<open>^[ ]{4}(.+)$\<close>\<close>

definition messageRegexp :: "string \<Rightarrow> string option" where
  "messageRegexp line =
     (case after_prefix ''    '' line of
        None \<Rightarrow> None
      | Some r \<Rightarrow> if any_plus r then Some r else None)"

text \<open>\<^verbatim>\<open>^([0-9]+)\t([0-9]+)\t(.+)$\<close>\<close>

definition diffRegexp :: "string \<Rightarrow> (string \<times> string \<times> string) option" where
  "diffRegexp line =
     (let a = takeWhile is_digit line; r1 = dropWhile is_digit line in
      case after_prefix [CHR 0x09] r1 of
        None \<Rightarrow> None
      | Some r2 \<Rightarrow>
          (let b = takeWhile is_digit r2; r3 = dropWhile is_digit r2 in
           case after_prefix [CHR 0x09] r3 of
             None \<Rightarrow> None
           | Some path \<Rightarrow>
               if a \<noteq> [] \<and> b \<noteq> [] \<and> any_plus path then Some (a, b, path) else None))"

text \<open>\<^verbatim>\<open>^\+([^+].*)$\<close>\<close>

definition addRegexp :: "string \<Rightarrow> string option" where
  "addRegexp line =
     (case line of
        c # d # r \<Rightarrow>
          if c = CHR ''+'' \<and> d \<noteq> CHR ''+'' \<and> CHR 0x0A \<notin> set r then Some (d # r) else None
      | _ \<Rightarrow> None)"

text \<open>\<^verbatim>\<open>^\-([^-].*)$\<close>\<close>

definition delRegexp :: "string \<Rightarrow> string option" where
  "delRegexp line =
     (case line of
        c # d # r \<Rightarrow>
          if c = CHR ''-'' \<and> d \<noteq> CHR ''-'' \<and> CHR 0x0A \<notin> set r then Some (d # r) else None
      | _ \<Rightarrow> None)"

text \<open>
  \<^verbatim>\<open>(?:[a-zA-Z0-9_]+\(|^if |^for |=)\<close>, searched anywhere in the string
  (\<^verbatim>\<open>MatchString\<close>). The first alternative is found by scanning for a word byte
  directly followed by an opening parenthesis.
\<close>

fun word_paren :: "string \<Rightarrow> bool" where
  "word_paren (a # b # r) = ((is_word a \<and> b = CHR ''('') \<or> word_paren (b # r))"
| "word_paren _ = False"

definition usefulLineRegexp :: "string \<Rightarrow> bool" where
  "usefulLineRegexp s =
     (word_paren s \<or> HasPrefix s ''if '' \<or> HasPrefix s ''for '' \<or> CHR ''='' \<in> set s)"

section \<open>Log parser\<close>

text \<open>
  \<^verbatim>\<open>strconv.ParseInt(s, 10, 64)\<close>: an optional sign, then one or more decimal
  digits, with a value in the signed 64-bit range; anything else is an error.
\<close>

definition digit_value :: "char \<Rightarrow> int" where
  "digit_value c = int (of_char c) - 48"

definition ParseInt :: "string \<Rightarrow> int option" where
  "ParseInt s =
     (let neg = HasPrefix s ''-'';
          ds = (if HasPrefix s ''+'' \<or> HasPrefix s ''-'' then tl s else s)
      in if ds = [] \<or> \<not> list_all is_digit ds then None
         else
           (let un = foldl (\<lambda>a c. 10 * a + digit_value c) 0 ds;
                n = (if neg then - un else un)
            in if - (2 ^ 63) \<le> n \<and> n < 2 ^ 63 then Some n else None))"

text \<open>
  An assignment to a field of \<^verbatim>\<open>commits[len(commits)-1]\<close>; the index expression
  panics on an empty slice.
\<close>

definition update_last :: "('a \<Rightarrow> 'a) \<Rightarrow> 'a list \<Rightarrow> error + 'a list" where
  "update_last f xs =
     (if xs = [] then Inl PanicIndex else Inr (butlast xs @ [f (last xs)]))"

definition new_commit :: "string \<Rightarrow> Commit" where
  "new_commit commit_id =
     \<lparr>ID = commit_id, Tree = [], Parent = [],
      Author = \<lparr>Author.Name = [], Email = [], Time = None\<rparr>, Message = [], Diff = []\<rparr>"

text \<open>One iteration of the scanning loop of \<^verbatim>\<open>GitLog\<close>.\<close>

definition GitLog_line :: "Commit list \<Rightarrow> string \<Rightarrow> error + Commit list" where
  "GitLog_line commits line =
     (case commitRegexp line of
        Some commit_id \<Rightarrow> Inr (commits @ [new_commit commit_id])
      | None \<Rightarrow>
     (case treeRegexp line of
        Some t \<Rightarrow>
          if length commits = 0 then Inr commits
          else update_last (\<lambda>c. c\<lparr>Tree := t\<rparr>) commits
      | None \<Rightarrow>
     (case parentRegexp line of
        Some p \<Rightarrow>
          if length commits = 0 then Inr commits
          else update_last (\<lambda>c. c\<lparr>Parent := p\<rparr>) commits
      | None \<Rightarrow>
     (case authorRegexp line of
        Some (name, email, stamp) \<Rightarrow>
          if length commits = 0 then Inr commits
          else (case ParseInt stamp of
                  None \<Rightarrow> Inr commits
                | Some i \<Rightarrow>
                    update_last
                      (\<lambda>c. c\<lparr>Author := \<lparr>Author.Name = name, Email = email, Time = Some i\<rparr>\<rparr>)
                      commits)
      | None \<Rightarrow>
     (case messageRegexp line of
        Some msg \<Rightarrow>
          if length commits = 0 then Inr commits
          else update_last (\<lambda>c. c\<lparr>Message := Message c @ [msg]\<rparr>) commits
      | None \<Rightarrow>
     (case diffRegexp line of
        Some (a, b, path) \<Rightarrow>
          if length commits = 0 then Inr commits
          else (case ParseInt a of
                  None \<Rightarrow> Inr commits
                | Some n_add \<Rightarrow>
                    (case ParseInt b of
                       None \<Rightarrow> Inr commits
                     | Some n_del \<Rightarrow>
                         update_last
                           (\<lambda>c. c\<lparr>Diff := Diff c
                                   @ [\<lparr>File = path, Add = n_add, Delete = n_del\<rparr>]\<rparr>)
                           commits))
      | None \<Rightarrow> Inr commits))))))"

fun GitLog_scan :: "Commit list \<Rightarrow> string list \<Rightarrow> error + Commit list" where
  "GitLog_scan commits [] = Inr commits"
| "GitLog_scan commits (line # rest) =
     (case GitLog_line commits line of
        Inl e \<Rightarrow> Inl e
      | Inr commits' \<Rightarrow> GitLog_scan commits' rest)"

text \<open>
  \<^verbatim>\<open>GitLog\<close>, given the outcome of the \<^verbatim>\<open>git log\<close> command: \<open>None\<close> when the command
  failed, otherwise the lines of its output.
\<close>

definition GitLog :: "string list option \<Rightarrow> error + Commit list" where
  "GitLog out =
     (case out of None \<Rightarrow> Inl ExecError | Some lines \<Rightarrow> GitLog_scan [] lines)"

section \<open>Diff extractor\<close>

text \<open>One iteration of the scanning loop of \<^verbatim>\<open>GitDiff\<close>.\<close>

definition GitDiff_line ::
  "string list \<times> string list \<Rightarrow> string \<Rightarrow> string list \<times> string list" where
  "GitDiff_line acc line =
     (case acc of (add_lines, del_lines) \<Rightarrow>
       (case addRegexp line of
          Some m \<Rightarrow>
            (let s = TrimSpace m in
             if HasPrefix s ''/'' \<or> HasPrefix s ''*'' then (add_lines, del_lines)
             else if \<not> usefulLineRegexp s then (add_lines, del_lines)
             else (add_lines @ [s], del_lines))
        | None \<Rightarrow>
       (case delRegexp line of
          Some m \<Rightarrow>
            (let s = TrimSpace m in
             if HasPrefix s ''/'' \<or> HasPrefix s ''*'' then (add_lines, del_lines)
             else if \<not> usefulLineRegexp s then (add_lines, del_lines)
             else (add_lines, del_lines @ [s]))
        | None \<Rightarrow> (add_lines, del_lines))))"

definition GitDiff_scan :: "string list \<Rightarrow> string list \<times> string list" where
  "GitDiff_scan lines = foldl GitDiff_line ([], []) lines"

text \<open>
  \<^verbatim>\<open>GitDiff\<close>, given the outcome of \<^verbatim>\<open>git diff\<close> for the commit: \<open>None\<close> when the
  command failed, otherwise the lines of the patch.
\<close>

definition GitDiff :: "string list option \<Rightarrow> error + (string list \<times> string list)" where
  "GitDiff out =
     (case out of None \<Rightarrow> Inl ExecError | Some lines \<Rightarrow> Inr (GitDiff_scan lines))"

section \<open>Name truncation\<close>

definition shorten :: "string \<Rightarrow> int \<Rightarrow> error + string" where
  "shorten s l =
     (if l < 3 then Inr ''''
      else if int (length s) > l then
        (case slice_to s (l - 3) of
           Inl e \<Rightarrow> Inl e
         | Inr p \<Rightarrow> Inr (p @ ''...''))
      else Inr s)"

section \<open>Churn scorer\<close>

text \<open>Addition of two Go \<^verbatim>\<open>int\<close> values: the sum wraps around at 64 bits.\<close>

definition int_add :: "int \<Rightarrow> int \<Rightarrow> int" where
  "int_add a b = (a + b + 2 ^ 63) mod 2 ^ 64 - 2 ^ 63"

text \<open>
  The loop of \<^verbatim>\<open>edit2score\<close>: while \<open>n \<ge> 1\<close>, count one more and divide \<open>n\<close> by ten.
  Go's integer division truncates towards zero; the loop only divides a positive
  \<open>n\<close>, where that is \<open>div\<close>.
\<close>

function edit2score_loop :: "int \<Rightarrow> real \<Rightarrow> real" where
  "edit2score_loop n score =
     (if n < 1 then score else edit2score_loop (n div 10) (score + 1))"
  by pat_completeness auto
termination
  by (relation "measure (\<lambda>(n, score). nat n)") auto

declare edit2score_loop.simps [simp del]

definition edit2score :: "int \<Rightarrow> real" where
  "edit2score n = edit2score_loop n 0"

text \<open>The per-file score computed in \<^verbatim>\<open>main\<close>: \<^verbatim>\<open>edit2score(diff.Add + diff.Delete)\<close>.\<close>

definition fileScore :: "Diff \<Rightarrow> real" where
  "fileScore diff = edit2score (int_add (Add diff) (Delete diff))"

text \<open>
  The map \<^verbatim>\<open>m\<close> from names to Targets is an association list in order of
  insertion. Go leaves the iteration order of a map unspecified; nothing proved
  below depends on the order chosen here. The closure \<^verbatim>\<open>add\<close> of \<^verbatim>\<open>main\<close>:
\<close>

definition add ::
  "(string \<times> Target) list \<Rightarrow> string \<Rightarrow> Commit \<Rightarrow> real \<Rightarrow> (string \<times> Target) list" where
  "add m name commit score =
     (case map_of m name of
        Some t \<Rightarrow>
          AList.update name (t\<lparr>Commit := Commit t @ [commit], Score := Score t + score\<rparr>) m
      | None \<Rightarrow>
          m @ [(name, \<lparr>Target.Name = name, Commit = [commit], Score = score, Reason = []\<rparr>)])"

text \<open>The test that selects source files.\<close>

definition qualifying :: "Diff \<Rightarrow> bool" where
  "qualifying diff =
     (HasSuffix (File diff) ''.h'' \<or> HasSuffix (File diff) ''.c'' \<or>
      HasSuffix (File diff) ''.go'')"

text \<open>
  The body of the inner loop over \<^verbatim>\<open>commit.Diff\<close>, on the map and the two local
  variables \<^verbatim>\<open>files\<close> and \<^verbatim>\<open>score\<close>.
\<close>

definition churn_diff ::
  "Commit \<Rightarrow> (string \<times> Target) list \<times> string list \<times> real \<Rightarrow> Diff
     \<Rightarrow> (string \<times> Target) list \<times> string list \<times> real" where
  "churn_diff commit acc diff =
     (case acc of (m, files, score) \<Rightarrow>
        if qualifying diff then
          (add m (File diff) commit (fileScore diff),
           files @ [File diff],
           score + fileScore diff)
        else (m, files, score))"

text \<open>The body of the outer loop over the commits.\<close>

definition churn_commit :: "(string \<times> Target) list \<Rightarrow> Commit \<Rightarrow> (string \<times> Target) list" where
  "churn_commit m commit =
     (case foldl (churn_diff commit) (m, [], 0) (Diff commit) of
        (m', files, score) \<Rightarrow>
          if 2 \<le> length files
          then add m' (Join files '','') commit (score * real (length files))
          else m')"

definition churn :: "Commit list \<Rightarrow> (string \<times> Target) list" where
  "churn commits = foldl churn_commit [] commits"

section \<open>Thrash detector\<close>

text \<open>
  The three working maps of one Target. \<^verbatim>\<open>plus\<close> and \<^verbatim>\<open>minus\<close> are only looked up,
  updated and deleted from; \<^verbatim>\<open>delta\<close> is also iterated over and is an association
  list.
\<close>

record replay =
  plus_map :: "string \<rightharpoonup> string"
  minus_map :: "string \<rightharpoonup> string"
  delta :: "(string \<times> int) list"

definition replay_start :: replay where
  "replay_start = \<lparr>plus_map = Map.empty, minus_map = Map.empty, delta = []\<rparr>"

text \<open>The value of \<^verbatim>\<open>delta[line]\<close>, zero for a missing key, and \<^verbatim>\<open>delta[line]++\<close>.\<close>

definition delta_count :: "(string \<times> int) list \<Rightarrow> string \<Rightarrow> int" where
  "delta_count d line = (case map_of d line of None \<Rightarrow> 0 | Some n \<Rightarrow> n)"

definition delta_incr :: "(string \<times> int) list \<Rightarrow> string \<Rightarrow> (string \<times> int) list" where
  "delta_incr d line = AList.update line (delta_count d line + 1) d"

text \<open>The body of the loop over the added lines of a commit.\<close>

definition replay_add :: "string \<Rightarrow> replay \<Rightarrow> string \<Rightarrow> replay" where
  "replay_add commit_id st line =
     (let st' =
        (case minus_map st line of
           Some other \<Rightarrow>
             if other \<noteq> commit_id
             then st\<lparr>delta := delta_incr (delta st) line,
                     minus_map := (minus_map st)(line := None)\<rparr>
             else st
         | None \<Rightarrow> st)
      in st'\<lparr>plus_map := (plus_map st')(line \<mapsto> commit_id)\<rparr>)"

text \<open>The body of the loop over the removed lines of a commit.\<close>

definition replay_del :: "string \<Rightarrow> replay \<Rightarrow> string \<Rightarrow> replay" where
  "replay_del commit_id st line =
     (let st' =
        (case plus_map st line of
           Some other \<Rightarrow>
             if other \<noteq> commit_id
             then st\<lparr>delta := delta_incr (delta st) line,
                     plus_map := (plus_map st)(line := None)\<rparr>
             else st
         | None \<Rightarrow> st)
      in st'\<lparr>minus_map := (minus_map st')(line \<mapsto> commit_id)\<rparr>)"

text \<open>
  The body of the loop over the member commits of a Target. The parameter
  \<open>git_diff\<close> gives, for a commit identifier, the outcome of the \<^verbatim>\<open>git diff\<close>
  command that \<^verbatim>\<open>GitDiff\<close> runs.
\<close>

definition replay_commit ::
  "(string \<Rightarrow> string list option) \<Rightarrow> replay \<Rightarrow> Commit \<Rightarrow> replay" where
  "replay_commit git_diff st commit =
     (case GitDiff (git_diff (ID commit)) of
        Inl err \<Rightarrow> st
      | Inr (add_lines, del_lines) \<Rightarrow>
          foldl (replay_del (ID commit))
            (foldl (replay_add (ID commit)) st add_lines) del_lines)"

definition replay_commits ::
  "(string \<Rightarrow> string list option) \<Rightarrow> Commit list \<Rightarrow> replay" where
  "replay_commits git_diff commits = foldl (replay_commit git_diff) replay_start commits"

section \<open>Sorting\<close>

text \<open>
  \<^verbatim>\<open>sort.Sort\<close> rearranges a slice so that no element is \<^verbatim>\<open>Less\<close> than one before
  it; it does not promise an order among elements neither of which is \<^verbatim>\<open>Less\<close>
  than the other. It is modelled by insertion sort on the \<^verbatim>\<open>Less\<close> method.
\<close>

fun insert_by :: "('a \<Rightarrow> 'a \<Rightarrow> bool) \<Rightarrow> 'a \<Rightarrow> 'a list \<Rightarrow> 'a list" where
  "insert_by Less x [] = [x]"
| "insert_by Less x (y # ys) =
     (if Less x y then x # y # ys else y # insert_by Less x ys)"

definition Sort :: "('a \<Rightarrow> 'a \<Rightarrow> bool) \<Rightarrow> 'a list \<Rightarrow> 'a list" where
  "Sort Less xs = foldr (insert_by Less) xs []"

definition ByCount_Less :: "Reason \<Rightarrow> Reason \<Rightarrow> bool" where
  "ByCount_Less a b = (Count a > Count b)"

definition ByScore_Less :: "Target \<Rightarrow> Target \<Rightarrow> bool" where
  "ByScore_Less a b =
     (Score a > Score b \<or>
      Score a = Score b \<and> length (Commit a) > length (Commit b))"

section \<open>Final score and ranking\<close>

text \<open>
  The body of the loop over the Targets of the map, up to the test of the final
  score: replay, collect the Reasons and their total, sort them, multiply.
\<close>

definition analyse :: "(string \<Rightarrow> string list option) \<Rightarrow> Target \<Rightarrow> Target" where
  "analyse git_diff t =
     (let d = delta (replay_commits git_diff (Commit t));
          reasons = Reason t @ map (\<lambda>(line, count). \<lparr>Line = line, Count = count\<rparr>) d;
          total = sum_list (map snd d)
      in t\<lparr>Reason := Sort ByCount_Less reasons,
           Score := Score t * real_of_int total\<rparr>)"

definition survivors ::
  "(string \<Rightarrow> string list option) \<Rightarrow> (string \<times> Target) list \<Rightarrow> Target list" where
  "survivors git_diff m =
     filter (\<lambda>t. Score t > 0) (map (\<lambda>(name, t). analyse git_diff t) m)"

definition ranked ::
  "(string \<Rightarrow> string list option) \<Rightarrow> (string \<times> Target) list \<Rightarrow> Target list" where
  "ranked git_diff m = Sort ByScore_Less (survivors git_diff m)"

section \<open>Reporter\<close>

text \<open>
  The flags that the reporter reads, and the lines it prints: each constructor
  carries the arguments of one \<^verbatim>\<open>Printf\<close>.
\<close>

record flags =
  topTarget :: int
  topReason :: int
  detail :: bool

datatype printed =
    TargetLine real string nat
  | ReasonLine int string
  | CommitLine string string string
  | EmptyLine
  | TotalLine nat nat

fun print_reasons :: "flags \<Rightarrow> nat \<Rightarrow> Reason list \<Rightarrow> printed list" where
  "print_reasons f i [] = []"
| "print_reasons f i (reason # rest) =
     (if int i = topReason f then []
      else (if detail f \<or> Count reason > 1
            then [ReasonLine (Count reason) (Line reason)] else [])
           @ print_reasons f (Suc i) rest)"

text \<open>
  Printing stops at a panic: the result is what was printed, and the panic if
  there was one.
\<close>

fun print_commits :: "Commit list \<Rightarrow> printed list \<times> error option" where
  "print_commits [] = ([], None)"
| "print_commits (commit # rest) =
     (let msg = (case Message commit of [] \<Rightarrow> [] | first # _ \<Rightarrow> first) in
      case slice_to (ID commit) 7 of
        Inl e \<Rightarrow> ([], Some e)
      | Inr short \<Rightarrow>
          (case print_commits rest of
             (out, e) \<Rightarrow> (CommitLine short msg (Author.Name (Author commit)) # out, e)))"

fun print_targets :: "flags \<Rightarrow> nat \<Rightarrow> Target list \<Rightarrow> printed list \<times> error option" where
  "print_targets f i [] = ([], None)"
| "print_targets f i (t # rest) =
     (if int i = topTarget f then ([], None)
      else
        (case shorten (Target.Name t) 40 of
           Inl e \<Rightarrow> ([], Some e)
         | Inr name \<Rightarrow>
             (let head = TargetLine (Score t) name (length (Commit t))
                           # print_reasons f 0 (Reason t);
                  (lines, e) = (if detail f then print_commits (Commit t) else ([], None))
              in case e of
                   Some e \<Rightarrow> (head @ lines, Some e)
                 | None \<Rightarrow>
                     (case print_targets f (Suc i) rest of
                        (out, e') \<Rightarrow> (head @ lines @ [EmptyLine] @ out, e')))))"

definition report :: "flags \<Rightarrow> Target list \<Rightarrow> nat \<Rightarrow> printed list \<times> error option" where
  "report f targets n =
     (case print_targets f 0 targets of
        (out, Some e) \<Rightarrow> (out, Some e)
      | (out, None) \<Rightarrow> (out @ [TotalLine (length targets) n], None))"

section \<open>The program\<close>

text \<open>
  \<^verbatim>\<open>main\<close>, given the flags and what the two \<^verbatim>\<open>git\<close> commands return. A failure of
  the log command ends the run without output.
\<close>

definition main ::
  "flags \<Rightarrow> string list option \<Rightarrow> (string \<Rightarrow> string list option)
     \<Rightarrow> printed list \<times> error option" where
  "main f git_log git_diff =
     (case GitLog git_log of
        Inl e \<Rightarrow> ([], if e = ExecError then None else Some e)
      | Inr commits \<Rightarrow> report f (ranked git_diff (churn commits)) (length commits))"

section \<open>Notions of the specification\<close>

text \<open>
  The following definitions follow the words of the specification, not the
  code; the theorems compare them with the functions above. A count field of a
  stat line is numeric when it is a non-empty string of decimal digits.
\<close>

definition numeric :: "string \<Rightarrow> bool" where
  "numeric x = (x \<noteq> [] \<and> list_all is_digit x)"

text \<open>
  A line is structurally interesting when it contains a word (one or more
  letters, digits or underscores) directly followed by an opening parenthesis,
  or starts with \<^verbatim>\<open>if \<close> or \<^verbatim>\<open>for \<close>, or contains an equals sign. A trimmed line is kept
  when it does not start with a comment marker and is structurally interesting.
\<close>

definition structurally_interesting :: "string \<Rightarrow> bool" where
  "structurally_interesting s =
     ((\<exists>u w v. s = u @ w @ ''('' @ v \<and> w \<noteq> [] \<and> list_all is_word w) \<or>
      (\<exists>r. s = ''if '' @ r) \<or> (\<exists>r. s = ''for '' @ r) \<or> CHR ''='' \<in> set s)"

definition kept :: "string \<Rightarrow> bool" where
  "kept s =
     (\<not> (\<exists>r. s = ''/'' @ r) \<and> \<not> (\<exists>r. s = ''*'' @ r) \<and> structurally_interesting s)"

text \<open>
  A run of white space is a sequence of encoded white space code points. The
  string \<open>s\<close> is the content \<open>m\<close> with leading and trailing white space trimmed
  when \<open>m\<close> is \<open>s\<close> between two runs of white space and \<open>s\<close> neither begins nor
  ends with white space.
\<close>

definition white_space :: "string \<Rightarrow> bool" where
  "white_space r = (\<exists>ws. set ws \<subseteq> set space_encodings \<and> r = concat ws)"

definition trimmed_of :: "string \<Rightarrow> string \<Rightarrow> bool" where
  "trimmed_of m s =
     (\<exists>pre suf. m = pre @ s @ suf \<and> white_space pre \<and> white_space suf \<and>
        (\<forall>e \<in> set space_encodings. \<not> HasPrefix s e \<and> \<not> HasSuffix s e))"

text \<open>
  An auxiliary notion for the proofs about the thrash detector: every entry of
  the two working maps was made by the commit \<open>b\<close>.
\<close>

definition only_commit :: "string \<Rightarrow> replay \<Rightarrow> bool" where
  "only_commit b st =
     ((\<forall>l. plus_map st l = None \<or> plus_map st l = Some b) \<and>
      (\<forall>l. minus_map st l = None \<or> minus_map st l = Some b))"

text \<open>The total thrash count of a Target: the sum of the counts of its Reasons.\<close>

definition thrash_total :: "Target \<Rightarrow> int" where
  "thrash_total t = sum_list (map Count (Reason t))"

text \<open>
  What the churn scorer guarantees about its map: the names are distinct, every
  Target is stored under its own name and has no Reasons yet.
\<close>

definition well_formed :: "(string \<times> Target) list \<Rightarrow> bool" where
  "well_formed m =
     (distinct (map fst m) \<and> (\<forall>(n, t) \<in> set m. Target.Name t = n \<and> Reason t = []))"



text \<open>
  The counts of every diff of the commits are non-negative and below \<open>2 ^ 63\<close>.
\<close>

definition counts_in_range :: "Commit list \<Rightarrow> bool" where
  "counts_in_range commits =
     list_all (\<lambda>c. list_all (\<lambda>d. 0 \<le> Add d \<and> Add d < 2 ^ 63 \<and>
                                   0 \<le> Delete d \<and> Delete d < 2 ^ 63) (Diff c)) commits"














section \<open>An example run\<close>

text \<open>
  A log of three commits, newest first, with a binary-file stat line and a file
  that is not a source file; the commits it parses to; and the patches of the
  commits, the fetch failing for the first one. The last commit has a short
  identifier.
\<close>

definition example_log :: "string list" where
  "example_log =
     [''commit c3c3c3c'',
      ''author Ann <ann@example.org> 1432347256 -0700'',
      ''    tidy lock handling'',
      ''120'' @ CHR 0x09 # ''30'' @ CHR 0x09 # ''refs.c'',
      ''4'' @ CHR 0x09 # ''1'' @ CHR 0x09 # ''refs.h'',
      ''-'' @ CHR 0x09 # ''-'' @ CHR 0x09 # ''logo.png'',
      ''9'' @ CHR 0x09 # ''0'' @ CHR 0x09 # ''README.md'',
      ''commit b2b2b2b'',
      ''    rework lock'',
      ''7'' @ CHR 0x09 # ''5'' @ CHR 0x09 # ''refs.c'',
      ''2'' @ CHR 0x09 # ''2'' @ CHR 0x09 # ''remote.c'',
      ''commit a1'',
      ''1'' @ CHR 0x09 # ''0'' @ CHR 0x09 # ''remote.c'',
      ''3'' @ CHR 0x09 # ''0'' @ CHR 0x09 # ''refs.c'']"

definition example_c3 :: Commit where
  "example_c3 =
     \<lparr>ID = ''c3c3c3c'', Tree = [], Parent = [],
      Author = \<lparr>Author.Name = ''Ann'', Email = ''ann@example.org'', Time = Some 1432347256\<rparr>,
      Message = [''tidy lock handling''],
      Diff = [\<lparr>File = ''refs.c'', Add = 120, Delete = 30\<rparr>,
              \<lparr>File = ''refs.h'', Add = 4, Delete = 1\<rparr>,
              \<lparr>File = ''README.md'', Add = 9, Delete = 0\<rparr>]\<rparr>"

definition example_b2 :: Commit where
  "example_b2 =
     \<lparr>ID = ''b2b2b2b'', Tree = [], Parent = [],
      Author = \<lparr>Author.Name = [], Email = [], Time = None\<rparr>,
      Message = [''rework lock''],
      Diff = [\<lparr>File = ''refs.c'', Add = 7, Delete = 5\<rparr>,
              \<lparr>File = ''remote.c'', Add = 2, Delete = 2\<rparr>]\<rparr>"

definition example_a1 :: Commit where
  "example_a1 =
     \<lparr>ID = ''a1'', Tree = [], Parent = [],
      Author = \<lparr>Author.Name = [], Email = [], Time = None\<rparr>,
      Message = [],
      Diff = [\<lparr>File = ''remote.c'', Add = 1, Delete = 0\<rparr>,
              \<lparr>File = ''refs.c'', Add = 3, Delete = 0\<rparr>]\<rparr>"

definition example_commits :: "Commit list" where
  "example_commits = [example_c3, example_b2, example_a1]"

definition example_diff :: "string \<Rightarrow> string list option" where
  "example_diff commit_id =
     (if commit_id = ''b2b2b2b'' then
        Some [''--- a/refs.c'', ''+++ b/refs.c'', ''-  if (write_ref(lock))'',
              ''+  if (commit_ref(lock))'', ''+ // retry'', '' unchanged()'']
      else if commit_id = ''a1'' then
        Some [''+++ b/refs.c'', ''+  if (write_ref(lock))'', ''+x = 1;'']
      else None)"



text \<open>
  Patches of three commits for the thrash detector: the first adds a line that
  the second removes and the third adds again, the first removes a line that
  the second adds, and the second adds and removes a line of its own. In the
  second family of patches, the second commit moves a line that the first
  commit added: it removes the line and adds it again.
\<close>

definition thrash_diff :: "string \<Rightarrow> string list option" where
  "thrash_diff commit_id =
     (if commit_id = ''a1'' then Some [''+x = 1;'', ''-y = 2;'']
      else if commit_id = ''b2'' then Some [''-x = 1;'', ''+y = 2;'', ''+z = 3;'', ''-z = 3;'']
      else if commit_id = ''c3'' then Some [''+x = 1;'']
      else None)"

definition moved_line_diff :: "string \<Rightarrow> string list option" where
  "moved_line_diff commit_id =
     (if commit_id = ''a1'' then Some [''+x = 1;'']
      else if commit_id = ''b2'' then Some [''-x = 1;'', ''+x = 1;'']
      else None)"

text \<open>
  The lines of a patch: a file header, added and removed lines with white space
  around their contents (blanks, a tab, a carriage return, a no-break space and
  an em space), comments, a line without structure and a context line.
\<close>

definition example_patch :: "string list" where
  "example_patch =
     [''+++ b/refs.c'',
      ''+  if (foo) {  '',
      ''-x = 1;'' @ [CHR 0x09],
      ''+ // y = 2'',
      ''+plain'',
      ''-- z = 3'',
      ''+'' @ [CHR 0x0D, CHR 0xC2, CHR 0xA0] @ ''commit_ref(lock)'' @ [CHR 0xE2, CHR 0x80, CHR 0x83],
      ''- * w = 4'',
      ''-for (;;)  '',
      '' a = b'',
      ''+a  =  b'']"


section \<open>Properties of name truncation\<close>

lemma slice_to_in_range:
  "0 \<le> k \<Longrightarrow> k \<le> int (length s) \<Longrightarrow> slice_to s k = Inr (take (nat k) s)"
  by (simp add: slice_to_def)

text \<open>
  Claim C10. At the configured width 40 a name longer than 40 bytes is rendered as
  its first 37 bytes followed by three dots; at every width below 3 the rendered
  name is empty; and at every width where truncation applies at all (at least 3,
  so in particular at 40) a name not longer than the width is rendered unchanged.
  No case panics.
\<close>

theorem shorten_truncation:
  "(40 < length s \<longrightarrow> shorten s 40 = Inr (take 37 s @ ''...'')) \<and>
   (l < 3 \<longrightarrow> shorten s l = Inr '''') \<and>
   (3 \<le> l \<and> int (length s) \<le> l \<longrightarrow> shorten s l = Inr s)"
  by (simp add: shorten_def slice_to_def)

theorem shorten_truncation_witness:
  "shorten ''src/transport/internal/connection_pool_manager.go'' 40
     = Inr ''src/transport/internal/connection_poo...'' \<and>
   shorten ''refs.c'' 2 = Inr '''' \<and>
   shorten ''refs.c'' 40 = Inr ''refs.c''"
  using shorten_truncation [of "''src/transport/internal/connection_pool_manager.go''" 2]
    shorten_truncation [of "''refs.c''" 2]
    shorten_truncation [of "''refs.c''" 40]
  by simp

section \<open>Properties of the churn magnitude\<close>

lemma floor_log10_small:
  assumes "1 \<le> n" "n < 10"
  shows "\<lfloor>log 10 (real_of_int n)\<rfloor> = 0"
  using assms by (simp add: floor_log_eq_powr_iff)

lemma floor_log10_div:
  assumes "10 \<le> n"
  shows "\<lfloor>log 10 (real_of_int n)\<rfloor> = \<lfloor>log 10 (real_of_int (n div 10))\<rfloor> + 1"
proof -
  obtain k :: nat where k: "n = int k"
    using assms by (metis nat_0_le order_trans zero_le_numeral)
  have "10 \<le> k" using assms k by simp
  then have "\<lfloor>log (real (10::nat)) (real k)\<rfloor>
      = \<lfloor>log (real (10::nat)) (real (k div 10))\<rfloor> + 1"
    by (intro floor_log_div) (auto simp: div_greater_zero_iff)
  moreover have "real_of_int (int k div 10) = real (k div 10)"
    by (metis of_int_of_nat_eq of_nat_numeral zdiv_int)
  ultimately show ?thesis
    by (simp add: k)
qed

lemma edit2score_loop_eq:
  "edit2score_loop n s =
     s + (if 1 \<le> n then real_of_int \<lfloor>log 10 (real_of_int n)\<rfloor> + 1 else 0)"
proof (induction n s rule: edit2score_loop.induct)
  case (1 n score)
  show ?case
  proof (cases "n < 1")
    case True
    then show ?thesis by (simp add: edit2score_loop.simps)
  next
    case False
    note IH = 1[OF False]
    show ?thesis
    proof (cases "n < 10")
      case True
      with False have "n div 10 = 0" by simp
      with False True IH show ?thesis
        by (subst edit2score_loop.simps) (simp add: floor_log10_small)
    next
      case ten: False
      then have "1 \<le> n div 10" by simp
      with False ten IH show ?thesis
        by (subst edit2score_loop.simps) (simp add: floor_log10_div)
    qed
  qed
qed

lemma int_add_no_wrap:
  "- (2 ^ 63) \<le> a + b \<Longrightarrow> a + b < 2 ^ 63 \<Longrightarrow> int_add a b = a + b"
  by (simp add: int_add_def)

text \<open>
  Claim C2. For the number \<open>n\<close> that \<^verbatim>\<open>edit2score\<close> receives, the score is
  \<open>\<lfloor>log\<^sub>1\<^sub>0 n\<rfloor> + 1\<close> when \<open>n \<ge> 1\<close> and \<open>0\<close> otherwise. The per-file score of a
  diff is \<^verbatim>\<open>edit2score\<close> of Go's sum of its two counts; for non-negative counts
  whose sum is below \<open>2 ^ 63\<close> (a sum that no repository exceeds) that is the
  number of added and removed lines, so the per-file score is its magnitude.
\<close>

theorem edit2score_magnitude:
  "edit2score n
     = (if 1 \<le> n then real_of_int \<lfloor>log 10 (real_of_int n)\<rfloor> + 1 else 0) \<and>
   fileScore d = edit2score (int_add (Add d) (Delete d)) \<and>
   (0 \<le> Add d \<and> 0 \<le> Delete d \<and> Add d + Delete d < 2 ^ 63 \<longrightarrow>
      int_add (Add d) (Delete d) = Add d + Delete d \<and>
      fileScore d
        = (if 1 \<le> Add d + Delete d
           then real_of_int \<lfloor>log 10 (real_of_int (Add d + Delete d))\<rfloor> + 1 else 0))"
proof -
  have score: "edit2score k
      = (if 1 \<le> k then real_of_int \<lfloor>log 10 (real_of_int k)\<rfloor> + 1 else 0)" for k
    unfolding edit2score_def by (subst edit2score_loop_eq) simp
  have sum: "int_add (Add d) (Delete d) = Add d + Delete d"
    if "0 \<le> Add d" "0 \<le> Delete d" "Add d + Delete d < 2 ^ 63"
    using that by (intro int_add_no_wrap) simp_all
  have per_diff: "fileScore d = edit2score (int_add (Add d) (Delete d))"
    by (simp add: fileScore_def)
  from sum per_diff have "fileScore d = edit2score (Add d + Delete d)"
    if "0 \<le> Add d" "0 \<le> Delete d" "Add d + Delete d < 2 ^ 63"
    using that by simp
  with sum per_diff show ?thesis
    using score [of n] score [of "Add d + Delete d"] by presburger
qed

theorem edit2score_magnitude_witness:
  "edit2score 1 = 1 \<and> edit2score 10 = 2 \<and> edit2score 100 = 3 \<and> edit2score 0 = 0 \<and>
   fileScore \<lparr>File = ''refs.c'', Add = 70, Delete = 30\<rparr>
     = real_of_int \<lfloor>log 10 (real_of_int 100)\<rfloor> + 1 \<and>
   fileScore \<lparr>File = ''refs.c'', Add = 70, Delete = 30\<rparr> = 3"
proof -
  have ex: "edit2score 1 = 1" "edit2score 10 = 2" "edit2score 100 = 3" "edit2score 0 = 0"
    by (simp_all add: edit2score_def edit2score_loop.simps)
  have "fileScore \<lparr>File = ''refs.c'', Add = 70, Delete = 30\<rparr> = 3"
    by (simp add: fileScore_def int_add_def edit2score_def edit2score_loop.simps)
  moreover have "fileScore \<lparr>File = ''refs.c'', Add = 70, Delete = 30\<rparr>
     = real_of_int \<lfloor>log 10 (real_of_int 100)\<rfloor> + 1"
    using edit2score_magnitude [of 100 "\<lparr>File = ''refs.c'', Add = 70, Delete = 30\<rparr>"]
    by simp
  ultimately show ?thesis using ex by simp
qed

section \<open>What the patterns match\<close>

text \<open>
  Each function that stands for a regular expression accepts exactly the strings
  of the expression and returns its groups.
\<close>

lemma HasPrefix_iff: "HasPrefix s p \<longleftrightarrow> (\<exists>r. s = p @ r)"
  by (auto simp: HasPrefix_def) (metis append_take_drop_id)

lemma after_prefix_Some:
  "after_prefix p s = Some r \<longleftrightarrow> s = p @ r"
  by (auto simp: after_prefix_def HasPrefix_def) (metis append_take_drop_id)

lemma tab_not_digit: "\<not> is_digit (CHR 0x09)"
  by (simp add: is_digit_def)

lemma after_prefix_append: "after_prefix p (p @ r) = Some r"
  by (simp add: after_prefix_def HasPrefix_def)






lemma addRegexp_iff:
  "addRegexp line = Some m \<longleftrightarrow>
     (\<exists>d r. m = d # r \<and> line = CHR ''+'' # m \<and> d \<noteq> CHR ''+'' \<and> CHR 0x0A \<notin> set r)"
  by (auto simp: addRegexp_def split: list.splits)

lemma delRegexp_iff:
  "delRegexp line = Some m \<longleftrightarrow>
     (\<exists>d r. m = d # r \<and> line = CHR ''-'' # m \<and> d \<noteq> CHR ''-'' \<and> CHR 0x0A \<notin> set r)"
  by (auto simp: delRegexp_def split: list.splits)







lemma diffRegexp_iff:
  "diffRegexp line = Some (a, b, path) \<longleftrightarrow>
     line = a @ CHR 0x09 # b @ CHR 0x09 # path \<and> numeric a \<and> numeric b \<and>
     path \<noteq> [] \<and> CHR 0x0A \<notin> set path"
proof
  assume m: "diffRegexp line = Some (a, b, path)"
  then obtain r2 where r2: "dropWhile is_digit line = CHR 0x09 # r2"
    and a: "a = takeWhile is_digit line"
    by (auto simp: diffRegexp_def Let_def after_prefix_Some split: option.splits if_splits)
  with m have path: "dropWhile is_digit r2 = CHR 0x09 # path"
    and b: "b = takeWhile is_digit r2"
    and rest: "a \<noteq> []" "b \<noteq> []" "any_plus path"
    by (auto simp: diffRegexp_def Let_def after_prefix_Some after_prefix_append [of "[CHR 0x09]", simplified]
        split: option.splits if_splits)
  have "line = takeWhile is_digit line @ dropWhile is_digit line"
    by simp
  also have "\<dots> = a @ CHR 0x09 # (takeWhile is_digit r2 @ dropWhile is_digit r2)"
    unfolding r2 a by simp
  also have "\<dots> = a @ CHR 0x09 # b @ CHR 0x09 # path"
    unfolding path b by simp
  finally have "line = a @ CHR 0x09 # b @ CHR 0x09 # path" .
  moreover have "list_all is_digit a" "list_all is_digit b"
    unfolding a b by (simp_all add: list_all_iff) (auto dest: set_takeWhileD)
  ultimately show "line = a @ CHR 0x09 # b @ CHR 0x09 # path \<and> numeric a \<and> numeric b \<and>
     path \<noteq> [] \<and> CHR 0x0A \<notin> set path"
    using rest by (simp add: numeric_def any_plus_def)
next
  assume h: "line = a @ CHR 0x09 # b @ CHR 0x09 # path \<and> numeric a \<and> numeric b \<and>
     path \<noteq> [] \<and> CHR 0x0A \<notin> set path"
  then have line: "line = a @ CHR 0x09 # b @ CHR 0x09 # path" and na: "numeric a"
    and nb: "numeric b" and p: "path \<noteq> []" "CHR 0x0A \<notin> set path"
    by simp_all
  from na have a: "takeWhile is_digit (a @ CHR 0x09 # b @ CHR 0x09 # path) = a"
    "dropWhile is_digit (a @ CHR 0x09 # b @ CHR 0x09 # path) = CHR 0x09 # b @ CHR 0x09 # path"
    by (simp_all add: numeric_def list_all_iff tab_not_digit)
  from nb have b: "takeWhile is_digit (b @ CHR 0x09 # path) = b"
    "dropWhile is_digit (b @ CHR 0x09 # path) = CHR 0x09 # path"
    by (simp_all add: numeric_def list_all_iff tab_not_digit)
  from na nb p show "diffRegexp line = Some (a, b, path)"
    unfolding line
    by (simp add: diffRegexp_def Let_def a b after_prefix_def HasPrefix_def numeric_def
        any_plus_def)
qed

section \<open>Trimming\<close>

lemma trim_leading_splits:
  "\<exists>pre. s = pre @ trim_leading encodings s"
proof (induction encodings s rule: trim_leading.induct)
  case (1 encodings s)
  show ?case
  proof (cases "filter (\<lambda>e. e \<noteq> [] \<and> HasPrefix s e) encodings")
    case Nil
    then have "trim_leading encodings s = s"
      by (subst trim_leading.simps) simp
    then show ?thesis by simp
  next
    case (Cons e es)
    then have t: "trim_leading encodings s = trim_leading encodings (drop (length e) s)"
      by (subst trim_leading.simps) simp
    from "1.IH" [OF Cons] obtain pre
      where "drop (length e) s = pre @ trim_leading encodings (drop (length e) s)"
      by blast
    then have "s = (take (length e) s @ pre) @ trim_leading encodings s"
      unfolding t by (metis append.assoc append_take_drop_id)
    then show ?thesis by blast
  qed
qed

lemma trim_leading_done:
  assumes "e \<in> set encodings" "e \<noteq> []"
  shows "\<not> HasPrefix (trim_leading encodings s) e"
  using assms
proof (induction encodings s rule: trim_leading.induct)
  case (1 encodings s)
  show ?case
  proof (cases "filter (\<lambda>e. e \<noteq> [] \<and> HasPrefix s e) encodings")
    case Nil
    then have "trim_leading encodings s = s"
      by (subst trim_leading.simps) simp
    moreover from Nil "1.prems" have "\<not> HasPrefix s e"
      by (auto simp: filter_empty_conv)
    ultimately show ?thesis by simp
  next
    case (Cons e' es)
    then have "trim_leading encodings s = trim_leading encodings (drop (length e') s)"
      by (subst trim_leading.simps) simp
    with "1.IH" [OF Cons "1.prems"] show ?thesis by simp
  qed
qed

text \<open>
  The result of \<open>TrimSpace\<close> is a middle part of its argument that neither begins
  nor ends with white space.
\<close>

lemma TrimSpace_trimmed:
  "(\<exists>pre suf. s = pre @ TrimSpace s @ suf) \<and>
   (\<forall>e \<in> set space_encodings. \<not> HasPrefix (TrimSpace s) e \<and> \<not> HasSuffix (TrimSpace s) e)"
proof -
  define t where "t = trim_leading space_encodings s"
  obtain pre where pre: "s = pre @ t"
    unfolding t_def using trim_leading_splits by blast
  obtain suf' where "rev t = suf' @ trim_leading (map rev space_encodings) (rev t)"
    using trim_leading_splits by blast
  then have "rev (rev t) = rev (suf' @ trim_leading (map rev space_encodings) (rev t))"
    by simp
  then have suf: "t = TrimSpace s @ rev suf'"
    by (simp add: TrimSpace_def t_def)
  have ne: "e \<noteq> []" if "e \<in> set space_encodings" for e
    using that by (auto simp: space_encodings_def)
  have "\<not> HasPrefix (TrimSpace s) e \<and> \<not> HasSuffix (TrimSpace s) e"
    if e: "e \<in> set space_encodings" for e
  proof
    have "\<not> HasPrefix t e"
      unfolding t_def using e ne [OF e] by (rule trim_leading_done)
    then show "\<not> HasPrefix (TrimSpace s) e"
      using suf by (auto simp: HasPrefix_iff)
    have "rev e \<in> set (map rev space_encodings)" "rev e \<noteq> []"
      using e ne [OF e] by simp_all
    then have "\<not> HasPrefix (trim_leading (map rev space_encodings) (rev t)) (rev e)"
      by (rule trim_leading_done)
    then have "\<not> HasPrefix (rev (TrimSpace s)) (rev e)"
      by (simp add: TrimSpace_def t_def)
    then show "\<not> HasSuffix (TrimSpace s) e"
      by (auto simp: HasPrefix_iff HasSuffix_def)
        (metis append_take_drop_id rev_append rev_rev_ident)
  qed
  moreover from pre suf have "s = pre @ TrimSpace s @ rev suf'" by simp
  ultimately show ?thesis by blast
qed

text \<open>
  The white space encodings form a prefix code and a suffix code, and no
  encoding continues with a byte that begins an encoding. So the string that is
  left when white space is removed at both ends is determined, and \<open>TrimSpace\<close>
  returns it.
\<close>

lemma HasSuffix_iff: "HasSuffix s p \<longleftrightarrow> (\<exists>r. s = r @ p)"
proof
  assume "HasSuffix s p"
  then have "s = take (length s - length p) s @ p"
    by (metis HasSuffix_def append_take_drop_id)
  then show "\<exists>r. s = r @ p" ..
next
  assume "\<exists>r. s = r @ p"
  then show "HasSuffix s p"
    by (auto simp: HasSuffix_def)
qed

lemma HasSuffix_rev: "HasSuffix s p \<longleftrightarrow> HasPrefix (rev s) (rev p)"
  unfolding HasSuffix_iff HasPrefix_iff
  by (metis rev_append rev_rev_ident)

lemma HasPrefix_same_cases:
  assumes "HasPrefix x h" "HasPrefix x w"
  shows "HasPrefix w h \<or> HasPrefix h w"
proof -
  from assms obtain r1 r2 where "x = h @ r1" "x = w @ r2"
    unfolding HasPrefix_iff by blast
  then have "h @ r1 = w @ r2" by simp
  then show ?thesis
    unfolding HasPrefix_iff by (auto simp: append_eq_append_conv2)
qed

lemma HasPrefix_append_cases:
  assumes "HasPrefix (s @ r) e" "\<not> HasPrefix s e"
  shows "\<exists>r'. e = s @ r' \<and> r' \<noteq> [] \<and> HasPrefix r r'"
proof -
  from assms(1) obtain t where "s @ r = e @ t"
    unfolding HasPrefix_iff by blast
  then obtain us where "s = e @ us \<and> us @ r = t \<or> s @ us = e \<and> r = us @ t"
    unfolding append_eq_append_conv2 by blast
  with assms(2) have us: "s @ us = e" "r = us @ t"
    unfolding HasPrefix_iff by auto
  with assms(2) have "us \<noteq> []"
    unfolding HasPrefix_iff by auto
  with us show ?thesis
    unfolding HasPrefix_iff by blast
qed

lemma encodings_nonempty: "e \<in> set space_encodings \<Longrightarrow> e \<noteq> []"
  by (auto simp: space_encodings_def)

lemma encodings_prefix_free:
  "\<forall>e \<in> set space_encodings. \<forall>e' \<in> set space_encodings. HasPrefix e' e \<longrightarrow> e = e'"
  by (simp add: space_encodings_def HasPrefix_def)

lemma encodings_suffix_free:
  "\<forall>e \<in> set space_encodings. \<forall>e' \<in> set space_encodings. HasSuffix e' e \<longrightarrow> e = e'"
  by (simp add: space_encodings_def HasSuffix_def)

lemma encodings_lead_bytes:
  "\<forall>e \<in> set space_encodings. \<forall>w \<in> set space_encodings. hd w \<notin> set (tl e)"
  by (simp add: space_encodings_def)


lemma trim_leading_Nil [simp]: "trim_leading encodings [] = []"
  by (subst trim_leading.simps) (simp add: HasPrefix_def filter_empty_conv split: list.splits)

lemma trim_leading_run:
  "\<exists>ws. set ws \<subseteq> set encodings \<and> s = concat ws @ trim_leading encodings s"
proof (induction encodings s rule: trim_leading.induct)
  case (1 encodings s)
  show ?case
  proof (cases "filter (\<lambda>e. e \<noteq> [] \<and> HasPrefix s e) encodings")
    case Nil
    then have "trim_leading encodings s = s"
      by (subst trim_leading.simps) simp
    then have "set [] \<subseteq> set encodings \<and> s = concat [] @ trim_leading encodings s"
      by simp
    then show ?thesis by blast
  next
    case (Cons e es)
    then have t: "trim_leading encodings s = trim_leading encodings (drop (length e) s)"
      by (subst trim_leading.simps) simp
    from Cons have "e \<in> set (filter (\<lambda>e. e \<noteq> [] \<and> HasPrefix s e) encodings)"
      by simp
    then have e: "e \<in> set encodings" "HasPrefix s e"
      by simp_all
    then have s: "s = e @ drop (length e) s"
      by (metis HasPrefix_def append_take_drop_id)
    from "1.IH" [OF Cons] obtain ws
      where ws: "set ws \<subseteq> set encodings"
        "drop (length e) s = concat ws @ trim_leading encodings (drop (length e) s)"
      by blast
    have "s = concat (e # ws) @ trim_leading encodings s"
      unfolding t using s ws(2) by (metis append.assoc concat.simps(2))
    moreover have "set (e # ws) \<subseteq> set encodings"
      using e(1) ws(1) by simp
    ultimately show ?thesis by blast
  qed
qed

lemma trim_leading_unique:
  assumes ne: "\<forall>e \<in> set encodings. e \<noteq> []"
    and pf: "\<forall>e \<in> set encodings. \<forall>e' \<in> set encodings. HasPrefix e' e \<longrightarrow> e = e'"
    and ws: "set ws \<subseteq> set encodings"
    and stop: "\<forall>e \<in> set encodings. \<not> HasPrefix s e"
  shows "trim_leading encodings (concat ws @ s) = s"
  using ws
proof (induction ws)
  case Nil
  from stop have "filter (\<lambda>e. e \<noteq> [] \<and> HasPrefix s e) encodings = []"
    by (simp add: filter_empty_conv)
  then show ?case
    by (subst trim_leading.simps) simp
next
  case (Cons w ws)
  let ?x = "concat (w # ws) @ s"
  from Cons.prems have w: "w \<in> set encodings" "w \<noteq> []" and rest: "set ws \<subseteq> set encodings"
    using ne by simp_all
  have wx: "HasPrefix ?x w"
    by (simp add: HasPrefix_iff)
  then have "w \<in> set (filter (\<lambda>e. e \<noteq> [] \<and> HasPrefix ?x e) encodings)"
    using w by simp
  then have "filter (\<lambda>e. e \<noteq> [] \<and> HasPrefix ?x e) encodings \<noteq> []"
    by (metis empty_iff empty_set)
  then obtain h t where ht: "filter (\<lambda>e. e \<noteq> [] \<and> HasPrefix ?x e) encodings = h # t"
    by (cases "filter (\<lambda>e. e \<noteq> [] \<and> HasPrefix ?x e) encodings") auto
  then have "h \<in> set (filter (\<lambda>e. e \<noteq> [] \<and> HasPrefix ?x e) encodings)"
    by simp
  then have h: "h \<in> set encodings" "HasPrefix ?x h"
    by simp_all
  from HasPrefix_same_cases [OF h(2) wx] have "h = w"
    using pf h(1) w(1) by blast
  have "trim_leading encodings ?x =
      (case filter (\<lambda>e. e \<noteq> [] \<and> HasPrefix ?x e) encodings of
         [] \<Rightarrow> ?x
       | e # _ \<Rightarrow> trim_leading encodings (drop (length e) ?x))"
    by (rule trim_leading.simps)
  also have "\<dots> = trim_leading encodings (drop (length h) ?x)"
    unfolding ht by simp
  also have "drop (length h) ?x = concat ws @ s"
    unfolding \<open>h = w\<close> by simp
  also have "trim_leading encodings (concat ws @ s) = s"
    using Cons.IH [OF rest] .
  finally show ?case .
qed

lemma white_space_Nil: "white_space []"
  unfolding white_space_def by (rule exI [of _ "[]"]) simp

lemma white_space_hd:
  assumes "white_space r" "r \<noteq> []"
  shows "\<exists>w \<in> set space_encodings. hd r = hd w"
proof -
  from assms(1) obtain ws where ws: "set ws \<subseteq> set space_encodings" "r = concat ws"
    unfolding white_space_def by blast
  from ws(2) assms(2) have "ws \<noteq> []" by auto
  then obtain w ws' where c: "ws = w # ws'" by (cases ws) auto
  with ws(1) have "w \<in> set space_encodings" by simp
  moreover from this have "w \<noteq> []" by (rule encodings_nonempty)
  then have "hd r = hd w" using ws(2) c by simp
  ultimately show ?thesis by blast
qed

text \<open>White space after a string that does not begin with white space does not make it begin with white space.\<close>

lemma no_prefix_append:
  assumes s: "s \<noteq> []" "\<forall>e \<in> set space_encodings. \<not> HasPrefix s e"
    and r: "white_space r"
    and e: "e \<in> set space_encodings"
  shows "\<not> HasPrefix (s @ r) e"
proof
  assume "HasPrefix (s @ r) e"
  with s(2) e obtain r' where r': "HasPrefix r r'" "e = s @ r'" "r' \<noteq> []"
    using HasPrefix_append_cases by blast
  then have "r \<noteq> []"
    by (auto simp: HasPrefix_iff)
  from white_space_hd [OF r this] obtain w where w: "w \<in> set space_encodings" "hd r = hd w"
    by blast
  from r' have "hd r' = hd r"
    by (auto simp: HasPrefix_iff)
  moreover from r'(2,3) s(1) have "hd r' \<in> set (tl e)"
    by (cases s; cases r') auto
  ultimately show False
    using encodings_lead_bytes e w by auto
qed

lemma TrimSpace_unique:
  assumes "trimmed_of m s"
  shows "TrimSpace m = s"
proof -
  from assms obtain pre suf ws1 ws2 where m: "m = pre @ s @ suf"
    and ws1: "set ws1 \<subseteq> set space_encodings" "pre = concat ws1"
    and ws2: "set ws2 \<subseteq> set space_encodings" "suf = concat ws2"
    and ends: "\<forall>e \<in> set space_encodings. \<not> HasPrefix s e \<and> \<not> HasSuffix s e"
    unfolding trimmed_of_def white_space_def by blast
  have ne: "\<forall>e \<in> set space_encodings. e \<noteq> []"
    using encodings_nonempty by blast
  note pf = encodings_prefix_free
  have ne': "\<forall>e \<in> set (map rev space_encodings). e \<noteq> []"
    using encodings_nonempty by auto
  have pf': "\<forall>e \<in> set (map rev space_encodings). \<forall>e' \<in> set (map rev space_encodings).
      HasPrefix e' e \<longrightarrow> e = e'"
    using encodings_suffix_free by (auto simp: HasSuffix_rev)
  have stop': "\<forall>e \<in> set (map rev space_encodings). \<not> HasPrefix (rev s) e"
    using ends by (auto simp: HasSuffix_rev)
  have rev_eq: "rev (s @ suf) = concat (map rev (rev ws2)) @ rev s"
    unfolding ws2(2) by (simp add: rev_concat rev_map)
  have ws2': "set (map rev (rev ws2)) \<subseteq> set (map rev space_encodings)"
    using ws2(1) by auto
  show ?thesis
  proof (cases "s = []")
    case True
    have "m = concat (ws1 @ ws2) @ []"
      using m ws1(2) ws2(2) True by simp
    moreover have "trim_leading space_encodings (concat (ws1 @ ws2) @ []) = []"
      using ne pf
    proof (rule trim_leading_unique)
      show "set (ws1 @ ws2) \<subseteq> set space_encodings"
        using ws1(1) ws2(1) by simp
      show "\<forall>e \<in> set space_encodings. \<not> HasPrefix [] e"
        using ne by (simp add: HasPrefix_def)
    qed
    ultimately have "trim_leading space_encodings m = []"
      by simp
    with True show ?thesis
      by (simp add: TrimSpace_def)
  next
    case False
    have "white_space suf"
      unfolding white_space_def using ws2 by blast
    have stop: "\<forall>e \<in> set space_encodings. \<not> HasPrefix (s @ suf) e"
    proof
      fix e
      assume e: "e \<in> set space_encodings"
      from ends have "\<forall>e \<in> set space_encodings. \<not> HasPrefix s e"
        by simp
      from no_prefix_append [OF False this \<open>white_space suf\<close> e]
      show "\<not> HasPrefix (s @ suf) e" .
    qed
    have "trim_leading space_encodings (concat ws1 @ s @ suf) = s @ suf"
      using ne pf ws1(1) stop by (rule trim_leading_unique)
    then have front: "trim_leading space_encodings m = s @ suf"
      using m ws1(2) by simp
    have rear: "trim_leading (map rev space_encodings) (rev (s @ suf)) = rev s"
      unfolding rev_eq using ne' pf' ws2' stop' by (rule trim_leading_unique)
    show ?thesis
      unfolding TrimSpace_def front rear by simp
  qed
qed

lemma TrimSpace_trims: "trimmed_of m (TrimSpace m)"
proof -
  define t where "t = trim_leading space_encodings m"
  obtain ws1 where ws1: "set ws1 \<subseteq> set space_encodings" "m = concat ws1 @ t"
    unfolding t_def using trim_leading_run by blast
  obtain ws2 where ws2: "set ws2 \<subseteq> set (map rev space_encodings)"
    "rev t = concat ws2 @ trim_leading (map rev space_encodings) (rev t)"
    using trim_leading_run by blast
  from ws2(2) have "rev (rev t) = rev (concat ws2 @ trim_leading (map rev space_encodings) (rev t))"
    by simp
  then have t: "t = TrimSpace m @ concat (map rev (rev ws2))"
    by (simp add: TrimSpace_def t_def rev_concat rev_map)
  have "set (map rev (rev ws2)) \<subseteq> set space_encodings"
    using ws2(1) by auto
  then have "white_space (concat (map rev (rev ws2)))"
    unfolding white_space_def by blast
  moreover have "white_space (concat ws1)"
    unfolding white_space_def using ws1(1) by blast
  moreover have "m = concat ws1 @ TrimSpace m @ concat (map rev (rev ws2))"
    using ws1(2) t by simp
  ultimately show ?thesis
    unfolding trimmed_of_def using TrimSpace_trimmed [of m] by blast
qed

lemma TrimSpace_iff: "trimmed_of m s \<longleftrightarrow> s = TrimSpace m"
  using TrimSpace_unique TrimSpace_trims by blast

section \<open>Decimal numbers\<close>

lemma digit_value_range: "is_digit c \<Longrightarrow> 0 \<le> digit_value c \<and> digit_value c \<le> 9"
  by (auto simp: is_digit_def digit_value_def)

lemma digits_nonneg:
  "list_all is_digit ds \<Longrightarrow> 0 \<le> acc \<Longrightarrow> 0 \<le> foldl (\<lambda>a c. 10 * a + digit_value c) acc ds"
proof (induction ds arbitrary: acc)
  case Nil
  then show ?case by simp
next
  case (Cons d ds)
  then have "0 \<le> 10 * acc + digit_value d"
    using digit_value_range [of d] by simp
  with Cons show ?case by simp
qed

lemma ParseInt_numeric:
  assumes "numeric s" "ParseInt s = Some n"
  shows "0 \<le> n \<and> n < 2 ^ 63"
proof -
  from assms(1) obtain c cs where s: "s = c # cs" and c: "is_digit c"
    by (cases s) (auto simp: numeric_def)
  then have sign: "\<not> HasPrefix s ''+''" "\<not> HasPrefix s ''-''"
    by (auto simp: HasPrefix_def is_digit_def)
  from assms(1) have "0 \<le> foldl (\<lambda>a c. 10 * a + digit_value c) 0 s"
    by (simp add: numeric_def digits_nonneg)
  with assms sign show ?thesis
    by (auto simp: ParseInt_def Let_def numeric_def split: if_splits)
qed

section \<open>Properties of the log parser\<close>

lemma GitLog_line_total: "\<exists>commits'. GitLog_line commits line = Inr commits'"
  by (auto simp: GitLog_line_def update_last_def split: option.splits prod.splits)



































lemmas regexp_defs = commitRegexp_def treeRegexp_def parentRegexp_def authorRegexp_def
  messageRegexp_def diffRegexp_def after_prefix_def HasPrefix_def any_plus_def is_digit_def



section \<open>Properties of the diff extractor\<close>

lemma word_paren_iff:
  "word_paren s \<longleftrightarrow> (\<exists>u a v. s = u @ a # CHR ''('' # v \<and> is_word a)"
proof (induction s rule: word_paren.induct)
  case (1 a b r)
  show ?case
  proof
    assume "word_paren (a # b # r)"
    then consider "is_word a" "b = CHR ''(''" | "word_paren (b # r)"
      by auto
    then show "\<exists>u a' v. a # b # r = u @ a' # CHR ''('' # v \<and> is_word a'"
    proof cases
      case 1
      then have "a # b # r = [] @ a # CHR ''('' # r \<and> is_word a" by simp
      then show ?thesis by blast
    next
      case 2
      with "1.IH" obtain u a' v where "b # r = u @ a' # CHR ''('' # v" "is_word a'"
        by blast
      then have "a # b # r = (a # u) @ a' # CHR ''('' # v \<and> is_word a'" by simp
      then show ?thesis by blast
    qed
  next
    assume "\<exists>u a' v. a # b # r = u @ a' # CHR ''('' # v \<and> is_word a'"
    then obtain u a' v where eq: "a # b # r = u @ a' # CHR ''('' # v" and w: "is_word a'"
      by blast
    show "word_paren (a # b # r)"
    proof (cases u)
      case Nil
      with eq w show ?thesis by simp
    next
      case (Cons x u')
      with eq have "b # r = u' @ a' # CHR ''('' # v" by simp
      with w "1.IH" have "word_paren (b # r)" by blast
      then show ?thesis by simp
    qed
  qed
qed (simp_all add: append_eq_Cons_conv)

lemma word_paren_spec:
  "word_paren s \<longleftrightarrow> (\<exists>u w v. s = u @ w @ ''('' @ v \<and> w \<noteq> [] \<and> list_all is_word w)"
proof
  assume "word_paren s"
  then obtain u a v where "s = u @ a # CHR ''('' # v" "is_word a"
    unfolding word_paren_iff by blast
  then have "s = u @ [a] @ ''('' @ v \<and> [a] \<noteq> [] \<and> list_all is_word [a]"
    by simp
  then show "\<exists>u w v. s = u @ w @ ''('' @ v \<and> w \<noteq> [] \<and> list_all is_word w"
    by blast
next
  assume "\<exists>u w v. s = u @ w @ ''('' @ v \<and> w \<noteq> [] \<and> list_all is_word w"
  then obtain u w v where s: "s = u @ w @ ''('' @ v" and w: "w \<noteq> []" "list_all is_word w"
    by blast
  from w have "w = butlast w @ [last w]" "is_word (last w)"
    by (simp_all add: list_all_iff)
  then have "s = (u @ butlast w) @ last w # CHR ''('' # v \<and> is_word (last w)"
    using s by (metis append.assoc append_Cons append_Nil)
  then show "word_paren s"
    unfolding word_paren_iff by blast
qed

lemma usefulLineRegexp_spec: "usefulLineRegexp s = structurally_interesting s"
  unfolding usefulLineRegexp_def structurally_interesting_def word_paren_spec HasPrefix_iff
  by simp

lemma addRegexp_Some:
  assumes "addRegexp line = Some m"
  shows "HasPrefix line ''+'' \<and> \<not> HasPrefix line ''++'' \<and> m = tl line"
  using assms
  by (auto simp: addRegexp_def HasPrefix_def split: list.splits if_splits)

lemma delRegexp_Some:
  assumes "delRegexp line = Some m"
  shows "HasPrefix line ''-'' \<and> \<not> HasPrefix line ''--'' \<and> m = tl line"
  using assms
  by (auto simp: delRegexp_def HasPrefix_def split: list.splits if_splits)

lemma del_not_add: "delRegexp line = Some m \<Longrightarrow> addRegexp line = None"
  by (auto simp: delRegexp_def addRegexp_def split: list.splits if_splits)

lemma kept_code:
  "kept s = (\<not> (HasPrefix s ''/'' \<or> HasPrefix s ''*'') \<and> usefulLineRegexp s)"
  by (simp add: kept_def usefulLineRegexp_spec HasPrefix_iff)

lemma GitDiff_line_eq:
  "GitDiff_line (a, d) line =
     (a @ filter kept (map TrimSpace (List.map_filter addRegexp [line])),
      d @ filter kept (map TrimSpace (List.map_filter delRegexp [line])))"
  by (auto simp: GitDiff_line_def List.map_filter_simps kept_code Let_def del_not_add
      split: option.splits)

lemma GitDiff_foldl_eq:
  "foldl GitDiff_line (a, d) lines =
     (a @ filter kept (map TrimSpace (List.map_filter addRegexp lines)),
      d @ filter kept (map TrimSpace (List.map_filter delRegexp lines)))"
proof (induction lines arbitrary: a d)
  case Nil
  show ?case by (simp add: List.map_filter_simps)
next
  case (Cons line lines)
  show ?case
    by (simp add: GitDiff_line_eq Cons.IH List.map_filter_simps split: option.splits)
qed

lemma trimmed_contents:
  assumes "list_all2 trimmed_of ms ts"
  shows "ts = map TrimSpace ms"
  using assms by (induction rule: list_all2_induct) (simp_all add: TrimSpace_iff)

text \<open>
  Claim C7. A patch line is classified as added only if it begins with one plus
  sign and not with two, and as removed only if it begins with one minus sign
  and not with two; the matched content is the rest of the line, and a line
  that consists of the sign and a first byte other than the sign is so
  classified. \<open>TrimSpace\<close> returns the content with its leading and trailing white
  space trimmed, and that string is determined by the content. The added
  sequence that the extractor returns consists, in order, of the trimmed contents
  of the lines classified as added that are kept, and likewise for the removed
  sequence; a trimmed content is kept if and only if it does not start with a
  slash or a star and contains a word followed by an opening parenthesis, or
  starts with \<^verbatim>\<open>if \<close> or \<^verbatim>\<open>for \<close>, or contains an equals sign.
\<close>

theorem GitDiff_keeps_useful_lines:
  "(addRegexp line = Some m \<longrightarrow>
      HasPrefix line ''+'' \<and> \<not> HasPrefix line ''++'' \<and> m = tl line) \<and>
   (delRegexp line' = Some m' \<longrightarrow>
      HasPrefix line' ''-'' \<and> \<not> HasPrefix line' ''--'' \<and> m' = tl line') \<and>
   addRegexp (CHR ''+'' # d # r)
     = (if d \<noteq> CHR ''+'' \<and> CHR 0x0A \<notin> set r then Some (d # r) else None) \<and>
   delRegexp (CHR ''-'' # d # r)
     = (if d \<noteq> CHR ''-'' \<and> CHR 0x0A \<notin> set r then Some (d # r) else None) \<and>
   trimmed_of c (TrimSpace c) \<and>
   (trimmed_of c s \<longrightarrow> s = TrimSpace c) \<and>
   GitDiff_scan lines =
     (filter kept (map TrimSpace (List.map_filter addRegexp lines)),
      filter kept (map TrimSpace (List.map_filter delRegexp lines))) \<and>
   (list_all2 trimmed_of (List.map_filter addRegexp lines) ta \<and>
    list_all2 trimmed_of (List.map_filter delRegexp lines) td \<longrightarrow>
      GitDiff (Some lines) = Inr (filter kept ta, filter kept td))"
proof (intro conjI impI)
  assume h: "addRegexp line = Some m"
  from addRegexp_Some [OF h]
  show "HasPrefix line ''+''" "\<not> HasPrefix line ''++''" "m = tl line"
    by simp_all
next
  assume h: "delRegexp line' = Some m'"
  from delRegexp_Some [OF h]
  show "HasPrefix line' ''-''" "\<not> HasPrefix line' ''--''" "m' = tl line'"
    by simp_all
next
  show "addRegexp (CHR ''+'' # d # r)
     = (if d \<noteq> CHR ''+'' \<and> CHR 0x0A \<notin> set r then Some (d # r) else None)"
    by (simp add: addRegexp_def)
next
  show "delRegexp (CHR ''-'' # d # r)
     = (if d \<noteq> CHR ''-'' \<and> CHR 0x0A \<notin> set r then Some (d # r) else None)"
    by (simp add: delRegexp_def)
next
  show "trimmed_of c (TrimSpace c)"
    by (rule TrimSpace_trims)
next
  assume "trimmed_of c s"
  then show "s = TrimSpace c"
    by (simp add: TrimSpace_iff)
next
  show "GitDiff_scan lines =
     (filter kept (map TrimSpace (List.map_filter addRegexp lines)),
      filter kept (map TrimSpace (List.map_filter delRegexp lines)))"
    by (simp add: GitDiff_scan_def GitDiff_foldl_eq)
next
  assume "list_all2 trimmed_of (List.map_filter addRegexp lines) ta \<and>
    list_all2 trimmed_of (List.map_filter delRegexp lines) td"
  then have "ta = map TrimSpace (List.map_filter addRegexp lines)"
    and "td = map TrimSpace (List.map_filter delRegexp lines)"
    by (simp_all add: trimmed_contents)
  then show "GitDiff (Some lines) = Inr (filter kept ta, filter kept td)"
    by (simp add: GitDiff_def GitDiff_scan_def GitDiff_foldl_eq)
qed

lemmas GitDiff_defs = GitDiff_scan_def GitDiff_line_def addRegexp_def delRegexp_def
  TrimSpace_def trim_leading.simps space_encodings_def HasPrefix_def usefulLineRegexp_def
  is_word_def

theorem GitDiff_keeps_useful_lines_witness:
  "HasPrefix ''+  if (foo) {  '' ''+'' \<and> \<not> HasPrefix ''+  if (foo) {  '' ''++'' \<and>
   HasPrefix (''-x = 1;'' @ [CHR 0x09]) ''-'' \<and> \<not> HasPrefix (''-x = 1;'' @ [CHR 0x09]) ''--'' \<and>
   addRegexp ''+  if (foo) {  '' = Some ''  if (foo) {  '' \<and>
   addRegexp ''+++ b/refs.c'' = None \<and>
   delRegexp ''-- z = 3'' = None \<and>
   TrimSpace ''  if (foo) {  '' = ''if (foo) {'' \<and>
   trimmed_of ''  if (foo) {  '' ''if (foo) {'' \<and>
   TrimSpace ([CHR 0x0D, CHR 0xC2, CHR 0xA0] @ ''commit_ref(lock)'' @ [CHR 0xE2, CHR 0x80, CHR 0x83])
     = ''commit_ref(lock)'' \<and>
   filter kept (map TrimSpace (List.map_filter addRegexp example_patch))
     = [''if (foo) {'', ''commit_ref(lock)'', ''a  =  b''] \<and>
   filter kept (map TrimSpace (List.map_filter delRegexp example_patch))
     = [''x = 1;'', ''for (;;)''] \<and>
   GitDiff (Some example_patch)
     = Inr ([''if (foo) {'', ''commit_ref(lock)'', ''a  =  b''], [''x = 1;'', ''for (;;)''])"
proof -
  have h1: "addRegexp ''+  if (foo) {  '' = Some ''  if (foo) {  ''"
    by (simp add: addRegexp_def)
  have h2: "delRegexp (''-x = 1;'' @ [CHR 0x09]) = Some (''x = 1;'' @ [CHR 0x09])"
    by (simp add: delRegexp_def)
  have t1: "TrimSpace ''  if (foo) {  '' = ''if (foo) {''"
    and t2: "TrimSpace '' // y = 2'' = ''// y = 2''"
    and t3: "TrimSpace ''plain'' = ''plain''"
    and t4: "TrimSpace ([CHR 0x0D, CHR 0xC2, CHR 0xA0] @ ''commit_ref(lock)''
        @ [CHR 0xE2, CHR 0x80, CHR 0x83]) = ''commit_ref(lock)''"
    and t5: "TrimSpace ''a  =  b'' = ''a  =  b''"
    and t6: "TrimSpace (''x = 1;'' @ [CHR 0x09]) = ''x = 1;''"
    and t7: "TrimSpace '' * w = 4'' = ''* w = 4''"
    and t8: "TrimSpace ''for (;;)  '' = ''for (;;)''"
    by (simp_all add: TrimSpace_def trim_leading.simps space_encodings_def HasPrefix_def)
  have added: "List.map_filter addRegexp example_patch
      = [''  if (foo) {  '', '' // y = 2'', ''plain'',
         [CHR 0x0D, CHR 0xC2, CHR 0xA0] @ ''commit_ref(lock)'' @ [CHR 0xE2, CHR 0x80, CHR 0x83],
         ''a  =  b'']"
    and removed: "List.map_filter delRegexp example_patch
      = [''x = 1;'' @ [CHR 0x09], '' * w = 4'', ''for (;;)  '']"
    by (simp_all add: example_patch_def List.map_filter_simps addRegexp_def delRegexp_def)
  have keep: "filter kept [''if (foo) {'', ''// y = 2'', ''plain'', ''commit_ref(lock)'', ''a  =  b'']
      = [''if (foo) {'', ''commit_ref(lock)'', ''a  =  b'']"
    "filter kept [''x = 1;'', ''* w = 4'', ''for (;;)''] = [''x = 1;'', ''for (;;)'']"
    by (simp_all add: kept_code usefulLineRegexp_def HasPrefix_def is_word_def)
  note plus = GitDiff_keeps_useful_lines
    [where line = "''+  if (foo) {  ''" and m = "''  if (foo) {  ''"
      and d = "CHR ''+''" and r = "''+ b/refs.c''", THEN conjunct1]
  note minus = GitDiff_keeps_useful_lines
    [where line' = "''-x = 1;'' @ [CHR 0x09]" and m' = "''x = 1;'' @ [CHR 0x09]",
      THEN conjunct2, THEN conjunct1]
  note header = GitDiff_keeps_useful_lines
    [where d = "CHR ''+''" and r = "''+ b/refs.c''", THEN conjunct2, THEN conjunct2,
      THEN conjunct1]
  note dashes = GitDiff_keeps_useful_lines
    [where d = "CHR ''-''" and r = "'' z = 3''", THEN conjunct2, THEN conjunct2,
      THEN conjunct2, THEN conjunct1]
  note trims = GitDiff_keeps_useful_lines
    [THEN conjunct2, THEN conjunct2, THEN conjunct2, THEN conjunct2, THEN conjunct1]
  note scan = GitDiff_keeps_useful_lines
    [where lines = example_patch, THEN conjunct2, THEN conjunct2, THEN conjunct2,
      THEN conjunct2, THEN conjunct2, THEN conjunct2, THEN conjunct1]
  note result = GitDiff_keeps_useful_lines
    [where lines = example_patch
      and ta = "[''if (foo) {'', ''// y = 2'', ''plain'', ''commit_ref(lock)'', ''a  =  b'']"
      and td = "[''x = 1;'', ''* w = 4'', ''for (;;)'']",
      THEN conjunct2, THEN conjunct2, THEN conjunct2, THEN conjunct2, THEN conjunct2,
      THEN conjunct2, THEN conjunct2]
  note unique = GitDiff_keeps_useful_lines
    [where c = "''  if (foo) {  ''" and s = "''if (foo) {''",
      THEN conjunct2, THEN conjunct2, THEN conjunct2, THEN conjunct2, THEN conjunct2,
      THEN conjunct1]
  have blanks: "white_space ''  ''"
    unfolding white_space_def
    by (rule exI [of _ "['' '', '' '']"]) (simp add: space_encodings_def)
  have direct: "trimmed_of ''  if (foo) {  '' ''if (foo) {''"
    unfolding trimmed_of_def
    by (rule exI [of _ "''  ''"], rule exI [of _ "''  ''"])
      (simp add: blanks space_encodings_def HasPrefix_def HasSuffix_def)
  have ta: "list_all2 trimmed_of (List.map_filter addRegexp example_patch)
      [''if (foo) {'', ''// y = 2'', ''plain'', ''commit_ref(lock)'', ''a  =  b'']"
    unfolding added
    using trims [of "''  if (foo) {  ''"] trims [of "'' // y = 2''"] trims [of "''plain''"]
      trims [of "[CHR 0x0D, CHR 0xC2, CHR 0xA0] @ ''commit_ref(lock)''
        @ [CHR 0xE2, CHR 0x80, CHR 0x83]"] trims [of "''a  =  b''"]
    unfolding t1 t2 t3 t4 t5 by simp
  have td: "list_all2 trimmed_of (List.map_filter delRegexp example_patch)
      [''x = 1;'', ''* w = 4'', ''for (;;)'']"
    unfolding removed
    using trims [of "''x = 1;'' @ [CHR 0x09]"] trims [of "'' * w = 4''"]
      trims [of "''for (;;)  ''"]
    unfolding t6 t7 t8 by simp
  have "HasPrefix ''+  if (foo) {  '' ''+'' \<and> \<not> HasPrefix ''+  if (foo) {  '' ''++''"
    using plus h1 by blast
  moreover have "HasPrefix (''-x = 1;'' @ [CHR 0x09]) ''-'' \<and>
      \<not> HasPrefix (''-x = 1;'' @ [CHR 0x09]) ''--''"
    using minus h2 by blast
  moreover note h1
  moreover have "addRegexp ''+++ b/refs.c'' = None"
    using header by simp
  moreover have "delRegexp ''-- z = 3'' = None"
    using dashes by simp
  moreover have "TrimSpace ''  if (foo) {  '' = ''if (foo) {''"
    using unique direct by simp
  moreover have "trimmed_of ''  if (foo) {  '' ''if (foo) {''"
    using trims [of "''  if (foo) {  ''"] unfolding t1 .
  moreover note t4
  moreover have "filter kept (map TrimSpace (List.map_filter addRegexp example_patch))
      = [''if (foo) {'', ''commit_ref(lock)'', ''a  =  b'']"
    and "filter kept (map TrimSpace (List.map_filter delRegexp example_patch))
      = [''x = 1;'', ''for (;;)'']"
    unfolding added removed list.map t1 t2 t3 t4 t5 t6 t7 t8 keep by (rule refl)+
  moreover have "GitDiff (Some example_patch)
      = Inr ([''if (foo) {'', ''commit_ref(lock)'', ''a  =  b''], [''x = 1;'', ''for (;;)''])"
    using result ta td unfolding keep by blast
  ultimately show ?thesis by blast
qed

section \<open>The counts that the log parser stores\<close>

lemma counts_update_last:
  assumes "counts_in_range commits" "update_last f commits = Inr commits'"
    and "\<And>c. Diff (f c) = Diff c \<or>
           (\<exists>d. Diff (f c) = Diff c @ [d] \<and> 0 \<le> Add d \<and> Add d < 2 ^ 63 \<and>
                0 \<le> Delete d \<and> Delete d < 2 ^ 63)"
  shows "counts_in_range commits'"
proof -
  let ?ok = "\<lambda>c. list_all (\<lambda>d. 0 \<le> Add d \<and> Add d < 2 ^ 63 \<and>
                                0 \<le> Delete d \<and> Delete d < 2 ^ 63) (Diff c)"
  from assms(2) have ne: "commits \<noteq> []" and eq: "commits' = butlast commits @ [f (last commits)]"
    by (auto simp: update_last_def split: if_splits)
  have front: "list_all ?ok (butlast commits)"
    using assms(1) unfolding counts_in_range_def list_all_iff
    by (blast dest: in_set_butlastD)
  have "?ok (last commits)"
    using assms(1) ne unfolding counts_in_range_def list_all_iff
    by (blast intro: last_in_set)
  with assms(3) [of "last commits"] have "?ok (f (last commits))"
    by auto
  with front show ?thesis
    unfolding eq counts_in_range_def by simp
qed

lemma counts_update_last_same:
  assumes "counts_in_range commits" "update_last f commits = Inr commits'"
    and "\<And>c. Diff (f c) = Diff c"
  shows "counts_in_range commits'"
  using assms(1,2) by (rule counts_update_last) (simp add: assms(3))

lemma counts_GitLog_line:
  assumes "counts_in_range commits" "GitLog_line commits line = Inr commits'"
  shows "counts_in_range commits'"
proof (cases "commitRegexp line")
  case (Some i)
  with assms show ?thesis
    by (auto simp: GitLog_line_def counts_in_range_def new_commit_def)
next
  case c: None
  show ?thesis
  proof (cases "treeRegexp line")
    case (Some t)
    with assms(2) c
    have "commits' = commits \<or> update_last (\<lambda>c. c\<lparr>Tree := t\<rparr>) commits = Inr commits'"
      by (simp add: GitLog_line_def split: if_splits)
    with assms(1) counts_update_last_same [of commits "\<lambda>c. c\<lparr>Tree := t\<rparr>" commits']
    show ?thesis by auto
  next
    case t: None
    show ?thesis
    proof (cases "parentRegexp line")
      case (Some p)
      with assms(2) c t
      have "commits' = commits \<or> update_last (\<lambda>c. c\<lparr>Parent := p\<rparr>) commits = Inr commits'"
        by (simp add: GitLog_line_def split: if_splits)
      with assms(1) counts_update_last_same [of commits "\<lambda>c. c\<lparr>Parent := p\<rparr>" commits']
      show ?thesis by auto
    next
      case p: None
      show ?thesis
      proof (cases "authorRegexp line")
        case (Some g)
        obtain name email stamp where g: "g = (name, email, stamp)" by (cases g)
        show ?thesis
        proof (cases "ParseInt stamp")
          case None
          with assms c t p Some g show ?thesis
            by (simp add: GitLog_line_def split: if_splits)
        next
          case (Some i)
          with assms(2) c t p \<open>authorRegexp line = Some g\<close> g
          have "commits' = commits \<or>
              update_last (\<lambda>c. c\<lparr>Author := \<lparr>Author.Name = name, Email = email, Time = Some i\<rparr>\<rparr>)
                commits = Inr commits'"
            by (simp add: GitLog_line_def split: if_splits)
          with assms(1) counts_update_last_same [of commits
              "\<lambda>c. c\<lparr>Author := \<lparr>Author.Name = name, Email = email, Time = Some i\<rparr>\<rparr>" commits']
          show ?thesis by auto
        qed
      next
        case a: None
        show ?thesis
        proof (cases "messageRegexp line")
          case (Some msg)
          with assms(2) c t p a
          have "commits' = commits \<or>
              update_last (\<lambda>c. c\<lparr>Message := Message c @ [msg]\<rparr>) commits = Inr commits'"
            by (simp add: GitLog_line_def split: if_splits)
          with assms(1) counts_update_last_same [of commits
              "\<lambda>c. c\<lparr>Message := Message c @ [msg]\<rparr>" commits']
          show ?thesis by auto
        next
          case m: None
          show ?thesis
          proof (cases "diffRegexp line")
            case None
            with assms c t p a m show ?thesis
              by (simp add: GitLog_line_def)
          next
            case (Some g)
            obtain x y path where g: "g = (x, y, path)" by (cases g)
            with Some have num: "numeric x" "numeric y"
              by (simp_all add: diffRegexp_iff)
            show ?thesis
            proof (cases "commits = [] \<or> ParseInt x = None \<or> ParseInt y = None")
              case True
              with assms(2) c t p a m Some g have "commits' = commits"
                by (auto simp: GitLog_line_def split: option.splits)
              with assms(1) show ?thesis by simp
            next
              case False
              then obtain nx ny where n: "ParseInt x = Some nx" "ParseInt y = Some ny"
                and ne: "commits \<noteq> []"
                by auto
              from ParseInt_numeric [OF num(1) n(1)] ParseInt_numeric [OF num(2) n(2)]
              have range: "0 \<le> nx \<and> nx < 2 ^ 63 \<and> 0 \<le> ny \<and> ny < 2 ^ 63"
                by simp
              from assms(2) c t p a m Some g n ne
              have "update_last
                  (\<lambda>c. c\<lparr>Diff := Diff c @ [\<lparr>File = path, Add = nx, Delete = ny\<rparr>]\<rparr>) commits
                  = Inr commits'"
                by (simp add: GitLog_line_def)
              with assms(1) show ?thesis
              proof (rule counts_update_last)
                fix c
                from range
                show "Diff (c\<lparr>Diff := Diff c @ [\<lparr>File = path, Add = nx, Delete = ny\<rparr>]\<rparr>) = Diff c \<or>
                  (\<exists>d. Diff (c\<lparr>Diff := Diff c @ [\<lparr>File = path, Add = nx, Delete = ny\<rparr>]\<rparr>)
                         = Diff c @ [d] \<and>
                       0 \<le> Add d \<and> Add d < 2 ^ 63 \<and> 0 \<le> Delete d \<and> Delete d < 2 ^ 63)"
                  by simp
              qed
            qed
          qed
        qed
      qed
    qed
  qed
qed

lemma counts_GitLog_scan:
  assumes "counts_in_range commits" "GitLog_scan commits lines = Inr commits'"
  shows "counts_in_range commits'"
  using assms
proof (induction lines arbitrary: commits)
  case Nil
  then show ?case by simp
next
  case (Cons line lines)
  obtain cs where cs: "GitLog_line commits line = Inr cs"
    using GitLog_line_total by blast
  with Cons.prems have "counts_in_range cs"
    by (simp add: counts_GitLog_line)
  with Cons.IH [of cs] Cons.prems(2) cs show ?case by simp
qed

lemma parsed_counts_in_range:
  assumes "GitLog out = Inr commits"
  shows "counts_in_range commits"
proof -
  from assms obtain lines where "GitLog_scan [] lines = Inr commits"
    by (auto simp: GitLog_def split: option.splits)
  moreover have "counts_in_range []"
    by (simp add: counts_in_range_def)
  ultimately show ?thesis
    by (rule counts_GitLog_scan [rotated])
qed

section \<open>Properties of the thrash detector\<close>

lemma delta_count_incr:
  "delta_count (delta_incr d l) l' = delta_count d l' + (if l' = l then 1 else 0)"
  by (simp add: delta_count_def delta_incr_def update_conv')

text \<open>One removed line.\<close>

lemma replay_del_count:
  "delta_count (delta (replay_del b st line)) l =
     delta_count (delta st) l
       + (if l = line \<and> plus_map st line \<noteq> None \<and> plus_map st line \<noteq> Some b then 1 else 0)"
  by (auto simp: replay_del_def delta_count_incr split: option.splits)

lemma replay_del_plus:
  "plus_map (replay_del b st line) l =
     (if l = line \<and> plus_map st line \<noteq> Some b then None else plus_map st l)"
  by (auto simp: replay_del_def split: option.splits)

lemma replay_del_minus:
  "minus_map (replay_del b st line) = (minus_map st)(line \<mapsto> b)"
  by (auto simp: replay_del_def split: option.splits)

lemma replay_del_same:
  "plus_map st line = None \<or> plus_map st line = Some b \<Longrightarrow>
     delta (replay_del b st line) = delta st"
  by (auto simp: replay_del_def split: option.splits)

text \<open>One added line.\<close>

lemma replay_add_count:
  "delta_count (delta (replay_add b st line)) l =
     delta_count (delta st) l
       + (if l = line \<and> minus_map st line \<noteq> None \<and> minus_map st line \<noteq> Some b then 1 else 0)"
  by (auto simp: replay_add_def delta_count_incr split: option.splits)

lemma replay_add_minus:
  "minus_map (replay_add b st line) l =
     (if l = line \<and> minus_map st line \<noteq> Some b then None else minus_map st l)"
  by (auto simp: replay_add_def split: option.splits)

lemma replay_add_plus:
  "plus_map (replay_add b st line) = (plus_map st)(line \<mapsto> b)"
  by (auto simp: replay_add_def split: option.splits)

lemma replay_add_same:
  "minus_map st line = None \<or> minus_map st line = Some b \<Longrightarrow>
     delta (replay_add b st line) = delta st"
  by (auto simp: replay_add_def split: option.splits)

text \<open>The loops over the added and over the removed lines of a commit.\<close>

lemma adds_count:
  "delta_count (delta (foldl (replay_add b) st ls)) l =
     delta_count (delta st) l
       + (if l \<in> set ls \<and> minus_map st l \<noteq> None \<and> minus_map st l \<noteq> Some b then 1 else 0)"
  by (induction ls arbitrary: st) (auto simp: replay_add_count replay_add_minus)

lemma adds_minus:
  "minus_map (foldl (replay_add b) st ls) l =
     (if l \<in> set ls \<and> minus_map st l \<noteq> Some b then None else minus_map st l)"
  by (induction ls arbitrary: st) (auto simp: replay_add_minus)

lemma adds_plus:
  "plus_map (foldl (replay_add b) st ls) l = (if l \<in> set ls then Some b else plus_map st l)"
  by (induction ls arbitrary: st) (auto simp: replay_add_plus)

lemma dels_count:
  "delta_count (delta (foldl (replay_del b) st ls)) l =
     delta_count (delta st) l
       + (if l \<in> set ls \<and> plus_map st l \<noteq> None \<and> plus_map st l \<noteq> Some b then 1 else 0)"
  by (induction ls arbitrary: st) (auto simp: replay_del_count replay_del_plus)

lemma dels_plus:
  "plus_map (foldl (replay_del b) st ls) l =
     (if l \<in> set ls \<and> plus_map st l \<noteq> Some b then None else plus_map st l)"
  by (induction ls arbitrary: st) (auto simp: replay_del_plus)

lemma dels_minus:
  "minus_map (foldl (replay_del b) st ls) l = (if l \<in> set ls then Some b else minus_map st l)"
  by (induction ls arbitrary: st) (auto simp: replay_del_minus)

text \<open>One commit whose patch was fetched: the additions are replayed before the removals.\<close>

lemma replay_commit_count:
  assumes "GitDiff (git_diff (ID c)) = Inr (adds, dels)"
  shows "delta_count (delta (replay_commit git_diff st c)) line =
     delta_count (delta st) line
       + (if line \<in> set adds \<and> minus_map st line \<noteq> None \<and> minus_map st line \<noteq> Some (ID c)
          then 1 else 0)
       + (if line \<notin> set adds \<and> line \<in> set dels \<and>
             plus_map st line \<noteq> None \<and> plus_map st line \<noteq> Some (ID c)
          then 1 else 0)"
  using assms by (simp add: replay_commit_def dels_count adds_count adds_plus)

lemma replay_commit_plus:
  assumes "GitDiff (git_diff (ID c)) = Inr (adds, dels)"
  shows "plus_map (replay_commit git_diff st c) line =
     (if line \<in> set adds then Some (ID c)
      else if line \<in> set dels \<and> plus_map st line \<noteq> Some (ID c) then None
      else plus_map st line)"
  using assms by (simp add: replay_commit_def dels_plus adds_plus)

lemma replay_commit_minus:
  assumes "GitDiff (git_diff (ID c)) = Inr (adds, dels)"
  shows "minus_map (replay_commit git_diff st c) line =
     (if line \<in> set dels then Some (ID c)
      else if line \<in> set adds \<and> minus_map st line \<noteq> Some (ID c) then None
      else minus_map st line)"
  using assms by (simp add: replay_commit_def dels_minus adds_minus)

lemma only_commit_add:
  assumes "only_commit b st"
  shows "only_commit b (replay_add b st line) \<and> delta (replay_add b st line) = delta st"
  using assms
  by (auto simp: only_commit_def replay_add_plus replay_add_minus replay_add_same)

lemma only_commit_del:
  assumes "only_commit b st"
  shows "only_commit b (replay_del b st line) \<and> delta (replay_del b st line) = delta st"
  using assms
  by (auto simp: only_commit_def replay_del_plus replay_del_minus replay_del_same)

lemma only_commit_adds:
  assumes "only_commit b st"
  shows "only_commit b (foldl (replay_add b) st ls) \<and> delta (foldl (replay_add b) st ls) = delta st"
  using assms
proof (induction ls arbitrary: st)
  case Nil
  then show ?case by simp
next
  case (Cons x ls)
  from only_commit_add [OF Cons.prems, of x] Cons.IH [of "replay_add b st x"]
  show ?case by simp
qed

lemma only_commit_dels:
  assumes "only_commit b st"
  shows "only_commit b (foldl (replay_del b) st ls) \<and> delta (foldl (replay_del b) st ls) = delta st"
  using assms
proof (induction ls arbitrary: st)
  case Nil
  then show ?case by simp
next
  case (Cons x ls)
  from only_commit_del [OF Cons.prems, of x] Cons.IH [of "replay_del b st x"]
  show ?case by simp
qed

lemma only_commit_replay:
  assumes "only_commit (ID c) st"
  shows "only_commit (ID c) (replay_commit git_diff st c) \<and>
    delta (replay_commit git_diff st c) = delta st"
proof (cases "GitDiff (git_diff (ID c))")
  case (Inl e)
  with assms show ?thesis by (simp add: replay_commit_def)
next
  case (Inr p)
  obtain adds dels where p: "p = (adds, dels)" by (cases p)
  from only_commit_adds [OF assms, of adds]
    only_commit_dels [of "ID c" "foldl (replay_add (ID c)) st adds" dels]
  show ?thesis
    by (simp add: replay_commit_def Inr p)
qed

lemma same_identifier_no_events:
  assumes "\<forall>c \<in> set cs. ID c = b" "only_commit b st"
  shows "delta (foldl (replay_commit git_diff) st cs) = delta st"
  using assms
proof (induction cs arbitrary: st)
  case Nil
  then show ?case by simp
next
  case (Cons c cs)
  then have "ID c = b" by simp
  with Cons.prems only_commit_replay [of c st git_diff]
  have "only_commit b (replay_commit git_diff st c)"
    and "delta (replay_commit git_diff st c) = delta st"
    by simp_all
  with Cons.IH [of "replay_commit git_diff st c"] Cons.prems show ?case
    by simp
qed

lemma only_commit_start: "only_commit b replay_start"
  by (simp add: only_commit_def replay_start_def)

text \<open>
  Claim C1 holds of the code in the following form. Replaying commits that all
  carry one identifier counts no thrash event. When the added map holds a line
  under commit \<open>a\<close> and a different commit \<open>b\<close> removes the line, the count of that
  line grows by exactly one, the entry of the added map is deleted and the
  removal is recorded under \<open>b\<close>; another removal then counts nothing, but the
  next addition of the line by a commit other than \<open>b\<close> counts one more event,
  without a second removal. Symmetrically for a line held in the removed map
  and added by a different commit. A whole commit replays its additions before
  its removals: a line the commit adds is recorded under the commit itself, so
  none of its removals of that line count, also when an earlier, different
  commit added the line (a moved line). The last conjunct gives the count and
  the two maps after any commit whose patch was fetched.
\<close>

theorem thrash_is_commit_sensitive:
  "((\<forall>c \<in> set cs. ID c = b) \<longrightarrow> delta (replay_commits git_diff cs) = []) \<and>
   (plus_map st line = Some b \<longrightarrow> delta (replay_del b st line) = delta st) \<and>
   (minus_map st line = Some b \<longrightarrow> delta (replay_add b st line) = delta st) \<and>
   (plus_map st line = Some a \<and> a \<noteq> b \<longrightarrow>
      delta_count (delta (replay_del b st line)) line = delta_count (delta st) line + 1 \<and>
      plus_map (replay_del b st line) line = None \<and>
      minus_map (replay_del b st line) line = Some b \<and>
      delta (replay_del b' (replay_del b st line) line) = delta (replay_del b st line) \<and>
      delta_count (delta (replay_add b' (replay_del b st line) line)) line
        = delta_count (delta st) line + (if b' = b then 1 else 2)) \<and>
   (minus_map st line = Some a \<and> a \<noteq> b \<longrightarrow>
      delta_count (delta (replay_add b st line)) line = delta_count (delta st) line + 1 \<and>
      minus_map (replay_add b st line) line = None \<and>
      plus_map (replay_add b st line) line = Some b \<and>
      delta (replay_add b' (replay_add b st line) line) = delta (replay_add b st line) \<and>
      delta_count (delta (replay_del b' (replay_add b st line) line)) line
        = delta_count (delta st) line + (if b' = b then 1 else 2)) \<and>
   (GitDiff (git_diff (ID c)) = Inr (adds, dels) \<longrightarrow>
      delta_count (delta (replay_commit git_diff st c)) line =
        delta_count (delta st) line
          + (if line \<in> set adds \<and> minus_map st line \<noteq> None \<and> minus_map st line \<noteq> Some (ID c)
             then 1 else 0)
          + (if line \<notin> set adds \<and> line \<in> set dels \<and>
                plus_map st line \<noteq> None \<and> plus_map st line \<noteq> Some (ID c)
             then 1 else 0) \<and>
      plus_map (replay_commit git_diff st c) line =
        (if line \<in> set adds then Some (ID c)
         else if line \<in> set dels \<and> plus_map st line \<noteq> Some (ID c) then None
         else plus_map st line) \<and>
      minus_map (replay_commit git_diff st c) line =
        (if line \<in> set dels then Some (ID c)
         else if line \<in> set adds \<and> minus_map st line \<noteq> Some (ID c) then None
         else minus_map st line))"
proof (intro conjI impI)
  assume "\<forall>c \<in> set cs. ID c = b"
  from same_identifier_no_events [OF this only_commit_start, of git_diff]
  show "delta (replay_commits git_diff cs) = []"
    by (simp add: replay_commits_def replay_start_def)
next
  assume "plus_map st line = Some b"
  then show "delta (replay_del b st line) = delta st"
    by (simp add: replay_del_same)
next
  assume "minus_map st line = Some b"
  then show "delta (replay_add b st line) = delta st"
    by (simp add: replay_add_same)
next
  assume h: "plus_map st line = Some a \<and> a \<noteq> b"
  then show "delta_count (delta (replay_del b st line)) line = delta_count (delta st) line + 1"
    by (simp add: replay_del_count)
  from h show gone: "plus_map (replay_del b st line) line = None"
    by (simp add: replay_del_plus)
  show "minus_map (replay_del b st line) line = Some b"
    by (simp add: replay_del_minus)
  from gone show "delta (replay_del b' (replay_del b st line) line) = delta (replay_del b st line)"
    by (simp add: replay_del_same)
  from h show "delta_count (delta (replay_add b' (replay_del b st line) line)) line
      = delta_count (delta st) line + (if b' = b then 1 else 2)"
    by (simp add: replay_add_count replay_del_count replay_del_minus)
next
  assume h: "minus_map st line = Some a \<and> a \<noteq> b"
  then show "delta_count (delta (replay_add b st line)) line = delta_count (delta st) line + 1"
    by (simp add: replay_add_count)
  from h show gone: "minus_map (replay_add b st line) line = None"
    by (simp add: replay_add_minus)
  show "plus_map (replay_add b st line) line = Some b"
    by (simp add: replay_add_plus)
  from gone show "delta (replay_add b' (replay_add b st line) line) = delta (replay_add b st line)"
    by (simp add: replay_add_same)
  from h show "delta_count (delta (replay_del b' (replay_add b st line) line)) line
      = delta_count (delta st) line + (if b' = b then 1 else 2)"
    by (simp add: replay_add_count replay_del_count replay_add_plus)
next
  assume h: "GitDiff (git_diff (ID c)) = Inr (adds, dels)"
  then show "delta_count (delta (replay_commit git_diff st c)) line =
        delta_count (delta st) line
          + (if line \<in> set adds \<and> minus_map st line \<noteq> None \<and> minus_map st line \<noteq> Some (ID c)
             then 1 else 0)
          + (if line \<notin> set adds \<and> line \<in> set dels \<and>
                plus_map st line \<noteq> None \<and> plus_map st line \<noteq> Some (ID c)
             then 1 else 0)"
    by (rule replay_commit_count)
  from h show "plus_map (replay_commit git_diff st c) line =
        (if line \<in> set adds then Some (ID c)
         else if line \<in> set dels \<and> plus_map st line \<noteq> Some (ID c) then None
         else plus_map st line)"
    by (rule replay_commit_plus)
  from h show "minus_map (replay_commit git_diff st c) line =
        (if line \<in> set dels then Some (ID c)
         else if line \<in> set adds \<and> minus_map st line \<noteq> Some (ID c) then None
         else minus_map st line)"
    by (rule replay_commit_minus)
qed

lemmas replay_defs = replay_commits_def replay_commit_def replay_add_def replay_del_def
  replay_start_def delta_incr_def delta_count_def new_commit_def GitDiff_def

theorem thrash_is_commit_sensitive_witness:
  "delta (replay_commits thrash_diff [new_commit ''a1'', new_commit ''a1'']) = [] \<and>
   delta_count (delta (replay_commits thrash_diff
      [new_commit ''a1'', new_commit ''b2''])) ''x = 1;'' = 1 \<and>
   plus_map (replay_commits thrash_diff
      [new_commit ''a1'', new_commit ''b2'']) ''x = 1;'' = None \<and>
   minus_map (replay_commits thrash_diff
      [new_commit ''a1'', new_commit ''b2'']) ''x = 1;'' = Some ''b2'' \<and>
   delta_count (delta (replay_commits thrash_diff
      [new_commit ''a1'', new_commit ''b2''])) ''y = 2;'' = 1 \<and>
   delta_count (delta (replay_commits thrash_diff
      [new_commit ''a1'', new_commit ''b2''])) ''z = 3;'' = 0 \<and>
   delta_count (delta (replay_commits thrash_diff
      [new_commit ''a1'', new_commit ''b2'', new_commit ''c3''])) ''x = 1;'' = 2 \<and>
   delta_count (delta (replay_commits moved_line_diff
      [new_commit ''a1'', new_commit ''b2''])) ''x = 1;'' = 0 \<and>
   plus_map (replay_commits moved_line_diff
      [new_commit ''a1'', new_commit ''b2'']) ''x = 1;'' = Some ''b2'' \<and>
   delta (replay_del ''a1'' (replay_add ''a1'' replay_start ''x = 1;'') ''x = 1;'') = [] \<and>
   delta_count (delta (replay_del ''b2'' (replay_add ''a1'' replay_start ''x = 1;'') ''x = 1;''))
      ''x = 1;'' = 1 \<and>
   delta_count (delta (replay_del ''c3''
      (replay_del ''b2'' (replay_add ''a1'' replay_start ''x = 1;'') ''x = 1;'') ''x = 1;''))
      ''x = 1;'' = 1 \<and>
   delta_count (delta (replay_add ''c3''
      (replay_del ''b2'' (replay_add ''a1'' replay_start ''x = 1;'') ''x = 1;'') ''x = 1;''))
      ''x = 1;'' = 2 \<and>
   delta_count (delta (replay_add ''b2'' (replay_del ''a1'' replay_start ''y = 2;'') ''y = 2;''))
      ''y = 2;'' = 1 \<and>
   delta (replay_add ''a1'' (replay_del ''a1'' replay_start ''y = 2;'') ''y = 2;'') = []"
proof -
  let ?A = "new_commit ''a1''" and ?B = "new_commit ''b2''" and ?C = "new_commit ''c3''"
  let ?added = "replay_add ''a1'' replay_start ''x = 1;''"
  let ?removed = "replay_del ''a1'' replay_start ''y = 2;''"
  have ids: "ID ?A = ''a1''" "ID ?B = ''b2''" "ID ?C = ''c3''"
    by (simp_all add: new_commit_def)
  have dA: "GitDiff (thrash_diff (ID ?A)) = Inr ([''x = 1;''], [''y = 2;''])"
    and dB: "GitDiff (thrash_diff (ID ?B))
        = Inr ([''y = 2;'', ''z = 3;''], [''x = 1;'', ''z = 3;''])"
    and dC: "GitDiff (thrash_diff (ID ?C)) = Inr ([''x = 1;''], [])"
    by (simp_all add: ids thrash_diff_def GitDiff_def GitDiff_defs)
  have mA: "GitDiff (moved_line_diff (ID ?A)) = Inr ([''x = 1;''], [])"
    and mB: "GitDiff (moved_line_diff (ID ?B)) = Inr ([''x = 1;''], [''x = 1;''])"
    by (simp_all add: ids moved_line_diff_def GitDiff_def GitDiff_defs)
  have start: "plus_map replay_start l = None" "minus_map replay_start l = None"
    "delta_count (delta replay_start) l = 0" "delta replay_start = []" for l
    by (simp_all add: replay_start_def delta_count_def)
  have added: "plus_map ?added ''x = 1;'' = Some ''a1''" "delta ?added = []"
    and removed: "minus_map ?removed ''y = 2;'' = Some ''a1''" "delta ?removed = []"
    by (simp_all add: replay_add_def replay_del_def replay_start_def)
  have zero: "delta_count [] l = 0" for l
    by (simp add: delta_count_def)
  note same = thrash_is_commit_sensitive
    [where cs = "[?A, ?A]" and b = "''a1''" and git_diff = thrash_diff, THEN conjunct1]
  note del_same = thrash_is_commit_sensitive
    [where st = ?added and line = "''x = 1;''" and b = "''a1''", THEN conjunct2, THEN conjunct1]
  note add_same = thrash_is_commit_sensitive
    [where st = ?removed and line = "''y = 2;''" and b = "''a1''",
      THEN conjunct2, THEN conjunct2, THEN conjunct1]
  note del_other = thrash_is_commit_sensitive
    [where st = ?added and line = "''x = 1;''" and a = "''a1''" and b = "''b2''"
      and b' = "''c3''",
      THEN conjunct2, THEN conjunct2, THEN conjunct2, THEN conjunct1]
  note add_other = thrash_is_commit_sensitive
    [where st = ?removed and line = "''y = 2;''" and a = "''a1''" and b = "''b2''",
      THEN conjunct2, THEN conjunct2, THEN conjunct2, THEN conjunct2, THEN conjunct1]
  note commit = thrash_is_commit_sensitive
    [THEN conjunct2, THEN conjunct2, THEN conjunct2, THEN conjunct2, THEN conjunct2,
      rule_format]
  note steps =
    commit [where git_diff = thrash_diff and c = ?A, OF dA]
    commit [where git_diff = thrash_diff and c = ?B, OF dB]
    commit [where git_diff = thrash_diff and c = ?C, OF dC]
    commit [where git_diff = moved_line_diff and c = ?A, OF mA]
    commit [where git_diff = moved_line_diff and c = ?B, OF mB]
  have "delta (replay_commits thrash_diff [?A, ?A]) = []"
    using same ids by simp
  moreover have "delta_count (delta (replay_commits thrash_diff [?A, ?B])) ''x = 1;'' = 1"
    "plus_map (replay_commits thrash_diff [?A, ?B]) ''x = 1;'' = None"
    "minus_map (replay_commits thrash_diff [?A, ?B]) ''x = 1;'' = Some ''b2''"
    "delta_count (delta (replay_commits thrash_diff [?A, ?B])) ''y = 2;'' = 1"
    "delta_count (delta (replay_commits thrash_diff [?A, ?B])) ''z = 3;'' = 0"
    "delta_count (delta (replay_commits thrash_diff [?A, ?B, ?C])) ''x = 1;'' = 2"
    "delta_count (delta (replay_commits moved_line_diff [?A, ?B])) ''x = 1;'' = 0"
    "plus_map (replay_commits moved_line_diff [?A, ?B]) ''x = 1;'' = Some ''b2''"
    by (simp_all add: replay_commits_def steps start ids zero)
  moreover have "delta (replay_del ''a1'' ?added ''x = 1;'') = []"
    using del_same added by simp
  moreover have "delta_count (delta (replay_del ''b2'' ?added ''x = 1;'')) ''x = 1;'' = 1"
    "delta_count (delta (replay_del ''c3'' (replay_del ''b2'' ?added ''x = 1;'') ''x = 1;''))
       ''x = 1;'' = 1"
    "delta_count (delta (replay_add ''c3'' (replay_del ''b2'' ?added ''x = 1;'') ''x = 1;''))
       ''x = 1;'' = 2"
    using del_other added zero by simp_all
  moreover have "delta_count (delta (replay_add ''b2'' ?removed ''y = 2;'')) ''y = 2;'' = 1"
    using add_other removed zero by simp
  moreover have "delta (replay_add ''a1'' ?removed ''y = 2;'') = []"
    using add_same removed by simp
  ultimately show ?thesis by blast
qed

text \<open>
  Claim C1 as the specification words it does not hold of the code. With the
  patches \<open>moved_line_diff\<close>, commit \<open>a1\<close> adds the line and the different commit
  \<open>b2\<close> removes it, and no thrash event is counted, because \<open>b2\<close> adds the line
  as well. With the patches \<open>thrash_diff\<close>, the line is added by \<open>a1\<close>, removed by
  \<open>b2\<close> and added by \<open>c3\<close>, and two events are counted for one removal.
\<close>

theorem thrash_moved_line_counterexample:
  "GitDiff (moved_line_diff ''a1'') = Inr ([''x = 1;''], []) \<and>
   GitDiff (moved_line_diff ''b2'') = Inr ([''x = 1;''], [''x = 1;'']) \<and>
   delta (replay_commits moved_line_diff [new_commit ''a1'', new_commit ''b2'']) = [] \<and>
   GitDiff (thrash_diff ''a1'') = Inr ([''x = 1;''], [''y = 2;'']) \<and>
   GitDiff (thrash_diff ''b2'') = Inr ([''y = 2;'', ''z = 3;''], [''x = 1;'', ''z = 3;'']) \<and>
   GitDiff (thrash_diff ''c3'') = Inr ([''x = 1;''], []) \<and>
   delta_count (delta (replay_commits thrash_diff
      [new_commit ''a1'', new_commit ''b2'', new_commit ''c3''])) ''x = 1;'' = 2"
  by (simp add: moved_line_diff_def thrash_diff_def replay_defs GitDiff_defs)

section \<open>Properties of the reporter\<close>

lemma shorten_returns: "\<exists>r. shorten s l = Inr r"
  by (simp add: shorten_def slice_to_def)




lemma print_commits_long_identifiers:
  assumes "list_all (\<lambda>c. 7 \<le> length (ID c)) cs"
  shows "snd (print_commits cs) = None"
  using assms
  by (induction cs) (auto simp: Let_def slice_to_def split: prod.splits)

lemma print_commits_short_identifier:
  assumes "\<not> list_all (\<lambda>c. 7 \<le> length (ID c)) cs"
  shows "snd (print_commits cs) = Some PanicSliceBounds"
  using assms
  by (induction cs) (auto simp: Let_def slice_to_def split: prod.splits)



lemma print_targets_without_detail:
  assumes "\<not> detail f"
  shows "snd (print_targets f i ts) = None"
  using assms
proof (induction ts arbitrary: i)
  case Nil
  show ?case by simp
next
  case (Cons t ts)
  obtain name where "shorten (Target.Name t) 40 = Inr name"
    using shorten_returns by blast
  moreover have "snd (print_targets f (Suc i) ts) = None"
    using Cons by simp
  ultimately show ?case
    using Cons.prems by (auto simp: Let_def split: prod.splits)
qed

lemma print_targets_long_identifiers:
  assumes "list_all (\<lambda>t. list_all (\<lambda>c. 7 \<le> length (ID c)) (Commit t)) ts"
  shows "snd (print_targets f i ts) = None"
  using assms
proof (induction ts arbitrary: i)
  case Nil
  show ?case by simp
next
  case (Cons t ts)
  obtain name where "shorten (Target.Name t) 40 = Inr name"
    using shorten_returns by blast
  moreover from Cons.prems have "snd (print_commits (Commit t)) = None"
    by (simp add: print_commits_long_identifiers)
  moreover have "snd (print_targets f (Suc i) ts) = None"
    using Cons by simp
  ultimately show ?case
    by (auto simp: Let_def split: prod.splits option.splits)
qed

lemma report_does_not_panic:
  assumes "\<not> detail f \<or> list_all (\<lambda>t. list_all (\<lambda>c. 7 \<le> length (ID c)) (Commit t)) ts"
  shows "snd (report f ts n) = None"
  using assms print_targets_without_detail [of f 0 ts] print_targets_long_identifiers [of ts f 0]
  by (auto simp: report_def split: prod.splits option.splits)

section \<open>Properties of sorting\<close>

lemma set_insert_by: "set (insert_by Less x xs) = insert x (set xs)"
  by (induction xs) auto

lemma set_Sort: "set (Sort Less xs) = set xs"
  unfolding Sort_def by (induction xs) (simp_all add: set_insert_by)

lemma length_insert_by: "length (insert_by Less x xs) = Suc (length xs)"
  by (induction xs) auto

lemma length_Sort: "length (Sort Less xs) = length xs"
  unfolding Sort_def by (induction xs) (simp_all add: length_insert_by)

lemma sum_list_insert_by:
  "sum_list (map f (insert_by Less x xs)) = f x + sum_list (map f xs)"
  for f :: "'a \<Rightarrow> int"
  by (induction xs) auto

lemma sum_list_Sort: "sum_list (map f (Sort Less xs)) = sum_list (map f xs)"
  for f :: "'a \<Rightarrow> int"
  unfolding Sort_def by (induction xs) (simp_all add: sum_list_insert_by)





section \<open>Properties of the final score\<close>

lemma analyse_fields:
  "Commit (analyse git_diff t) = Commit t"
  "Target.Name (analyse git_diff t) = Target.Name t"
  "Score (analyse git_diff t)
     = Score t * real_of_int (sum_list (map snd (delta (replay_commits git_diff (Commit t)))))"
  by (simp_all add: analyse_def Let_def)

lemma analyse_thrash_total:
  assumes "Reason t = []"
  shows "thrash_total (analyse git_diff t)
     = sum_list (map snd (delta (replay_commits git_diff (Commit t))))"
proof -
  have "Count \<circ> (\<lambda>(line, count). \<lparr>Line = line, Count = count\<rparr>) = snd"
    by (auto simp: fun_eq_iff)
  then show ?thesis
    using assms by (simp add: thrash_total_def analyse_def Let_def sum_list_Sort)
qed

lemma set_update_cases:
  assumes "(k', v') \<in> set (AList.update k v al)"
  shows "(k', v') = (k, v) \<or> (k', v') \<in> set al"
  using assms by (induction al) (auto split: if_splits)

lemma well_formed_add:
  assumes "well_formed m"
  shows "well_formed (add m name commit score)"
proof (cases "map_of m name")
  case None
  then have "name \<notin> fst ` set m"
    by (simp add: map_of_eq_None_iff)
  with assms None show ?thesis
    by (auto simp: well_formed_def add_def)
next
  case (Some t)
  then have "(name, t) \<in> set m"
    by (rule map_of_SomeD)
  with assms have "Target.Name t = name" "Reason t = []"
    by (auto simp: well_formed_def)
  with assms Some show ?thesis
    by (auto simp: well_formed_def add_def distinct_update dest!: set_update_cases)
qed

lemma well_formed_churn_diffs:
  assumes "well_formed m"
  shows "well_formed (fst (foldl (churn_diff commit) (m, files, score) ds))"
  using assms
proof (induction ds arbitrary: m files score)
  case Nil
  then show ?case by simp
next
  case (Cons d ds)
  show ?case
  proof (cases "qualifying d")
    case True
    with Cons.IH [OF well_formed_add [OF Cons.prems]] show ?thesis
      by (simp add: churn_diff_def)
  next
    case False
    with Cons show ?thesis
      by (simp add: churn_diff_def)
  qed
qed

lemma well_formed_churn_commit:
  assumes "well_formed m"
  shows "well_formed (churn_commit m commit)"
proof -
  obtain m' files score
    where f: "foldl (churn_diff commit) (m, [], 0) (Diff commit) = (m', files, score)"
    by (metis prod_cases3)
  with well_formed_churn_diffs [OF assms, of commit "[]" 0 "Diff commit"]
  have "well_formed m'" by simp
  with f show ?thesis
    by (simp add: churn_commit_def well_formed_add)
qed

lemma well_formed_foldl:
  assumes "well_formed m"
  shows "well_formed (foldl churn_commit m commits)"
  using assms
  by (induction commits arbitrary: m) (simp_all add: well_formed_churn_commit)

lemma well_formed_churn: "well_formed (churn commits)"
  unfolding churn_def by (rule well_formed_foldl) (simp add: well_formed_def)

lemma set_ranked:
  "set (ranked git_diff m)
     = {t' \<in> (\<lambda>(n, t). analyse git_diff t) ` set m. Score t' > 0}"
  by (auto simp: ranked_def survivors_def set_Sort)

text \<open>
  Claim C4. The final Score of a Target is its churn Score multiplied by the
  total of the counts that the replay collected, which for a Target built by the
  churn scorer is the sum of the counts of its Reasons. The ranked list holds
  exactly the analysed Targets whose final Score is strictly positive. Hence a
  Target of the churn map whose total thrash count is zero has no entry in the
  ranked list, whatever its churn Score.
\<close>

theorem zero_thrash_excluded:
  "Score (analyse git_diff t)
     = Score t * real_of_int (sum_list (map snd (delta (replay_commits git_diff (Commit t))))) \<and>
   set (ranked git_diff m) = {t' \<in> (\<lambda>(n, t). analyse git_diff t) ` set m. Score t' > 0} \<and>
   ((n, u) \<in> set (churn commits) \<longrightarrow>
      Score (analyse git_diff u) = Score u * real_of_int (thrash_total (analyse git_diff u)) \<and>
      (thrash_total (analyse git_diff u) = 0 \<longrightarrow>
         (\<forall>t' \<in> set (ranked git_diff (churn commits)). Target.Name t' \<noteq> n)))"
proof (intro conjI impI)
  show "Score (analyse git_diff t)
     = Score t * real_of_int (sum_list (map snd (delta (replay_commits git_diff (Commit t)))))"
    by (rule analyse_fields)
  show "set (ranked git_diff m) = {t' \<in> (\<lambda>(n, t). analyse git_diff t) ` set m. Score t' > 0}"
    by (rule set_ranked)
next
  assume u: "(n, u) \<in> set (churn commits)"
  have wf: "well_formed (churn commits)"
    by (rule well_formed_churn)
  with u have "Reason u = []"
    by (auto simp: well_formed_def)
  then show final: "Score (analyse git_diff u)
      = Score u * real_of_int (thrash_total (analyse git_diff u))"
    by (simp add: analyse_fields analyse_thrash_total)
  assume zero: "thrash_total (analyse git_diff u) = 0"
  show "\<forall>t' \<in> set (ranked git_diff (churn commits)). Target.Name t' \<noteq> n"
  proof
    fix t'
    assume "t' \<in> set (ranked git_diff (churn commits))"
    then obtain n2 t2 where t2: "(n2, t2) \<in> set (churn commits)"
      and t': "t' = analyse git_diff t2" and pos: "Score t' > 0"
      by (auto simp: set_ranked)
    show "Target.Name t' \<noteq> n"
    proof
      assume "Target.Name t' = n"
      with t' t2 wf have "n2 = n"
        by (auto simp: well_formed_def analyse_fields)
      with t2 u wf have "t2 = u"
        by (auto simp: well_formed_def dest: eq_key_imp_eq_value)
      with t' final zero pos show False by simp
    qed
  qed
qed


section \<open>Properties of a failed patch fetch\<close>

lemma replay_commit_failed:
  assumes "git_diff (ID c) = None"
  shows "replay_commit git_diff st c = st"
  using assms by (simp add: replay_commit_def GitDiff_def)

text \<open>
  Claim C8. When the patch of a commit cannot be fetched, replaying the commit
  changes none of the working maps, so the replay of the Target's commits goes
  on and gives what it gives without that commit. The analysed Target keeps
  its whole member list, the failed commit included, which is the list whose
  length breaks ties in the ranking and which the detail mode prints; and its
  final Score is the unchanged churn Score times the thrash total of the other
  commits.
\<close>

theorem failed_fetch_is_skipped:
  "git_diff (ID c) = None \<longrightarrow>
     replay_commit git_diff st c = st \<and>
     replay_commits git_diff (before @ c # after) = replay_commits git_diff (before @ after) \<and>
     (Commit t = before @ c # after \<longrightarrow>
        Commit (analyse git_diff t) = before @ c # after \<and>
        length (Commit (analyse git_diff t)) = Suc (length before + length after) \<and>
        Score (analyse git_diff t)
          = Score t * real_of_int
              (sum_list (map snd (delta (replay_commits git_diff (before @ after))))))"
proof (intro impI conjI)
  assume f: "git_diff (ID c) = None"
  then show "replay_commit git_diff st c = st"
    by (rule replay_commit_failed)
  from f show skip: "replay_commits git_diff (before @ c # after)
      = replay_commits git_diff (before @ after)"
    by (simp add: replay_commits_def replay_commit_failed)
  assume t: "Commit t = before @ c # after"
  then show "Commit (analyse git_diff t) = before @ c # after"
    by (simp add: analyse_fields)
  from t show "length (Commit (analyse git_diff t)) = Suc (length before + length after)"
    by (simp add: analyse_fields)
  from t skip show "Score (analyse git_diff t)
      = Score t * real_of_int
          (sum_list (map snd (delta (replay_commits git_diff (before @ after)))))"
    by (simp add: analyse_fields)
qed

section \<open>Properties of the churn scorer\<close>










section \<open>The example run\<close>

lemmas GitLog_defs = GitLog_def GitLog_line_def update_last_def new_commit_def ParseInt_def
  digit_value_def regexp_defs Let_def

lemma example_parse: "GitLog (Some example_log) = Inr example_commits"
  by (simp add: example_log_def example_commits_def example_c3_def example_b2_def
      example_a1_def GitLog_defs)

lemmas churn_defs = churn_def churn_commit_def churn_diff_def qualifying_def HasSuffix_def
  fileScore_def int_add_def edit2score_def edit2score_loop.simps add_def

lemmas analyse_defs = analyse_def ranked_def survivors_def Sort_def ByScore_Less_def
  ByCount_Less_def Let_def


lemma example_churn:
  "churn example_commits =
     [(''refs.c'', \<lparr>Target.Name = ''refs.c'', Commit = example_commits, Score = 6, Reason = []\<rparr>),
      (''refs.h'', \<lparr>Target.Name = ''refs.h'', Commit = [example_c3], Score = 1, Reason = []\<rparr>),
      (''refs.c,refs.h'',
         \<lparr>Target.Name = ''refs.c,refs.h'', Commit = [example_c3], Score = 8, Reason = []\<rparr>),
      (''remote.c'', \<lparr>Target.Name = ''remote.c'', Commit = [example_b2, example_a1], Score = 2, Reason = []\<rparr>),
      (''refs.c,remote.c'',
         \<lparr>Target.Name = ''refs.c,remote.c'', Commit = [example_b2], Score = 6, Reason = []\<rparr>),
      (''remote.c,refs.c'',
         \<lparr>Target.Name = ''remote.c,refs.c'', Commit = [example_a1], Score = 4, Reason = []\<rparr>)]"
  by (simp add: example_commits_def example_c3_def example_b2_def example_a1_def churn_defs)

lemma example_patches:
  "GitDiff (example_diff ''c3c3c3c'') = Inl ExecError"
  "GitDiff (example_diff ''b2b2b2b'') = Inr ([''if (commit_ref(lock))''], [''if (write_ref(lock))''])"
  "GitDiff (example_diff ''a1'') = Inr ([''if (write_ref(lock))'', ''x = 1;''], [])"
  by (simp_all add: example_diff_def GitDiff_def GitDiff_defs)

lemma example_replay:
  "delta (replay_commits example_diff example_commits) = [(''if (write_ref(lock))'', 1)]"
  "delta (replay_commits example_diff [example_b2, example_a1]) = [(''if (write_ref(lock))'', 1)]"
  "delta (replay_commits example_diff [example_c3]) = []"
  "delta (replay_commits example_diff [example_b2]) = []"
  "delta (replay_commits example_diff [example_a1]) = []"
  by (simp_all add: example_commits_def example_c3_def example_b2_def example_a1_def
      replay_commits_def replay_commit_def example_patches
      replay_add_def replay_del_def replay_start_def delta_incr_def delta_count_def)

lemma example_ranked:
  "ranked example_diff (churn example_commits) =
     [\<lparr>Target.Name = ''refs.c'', Commit = example_commits, Score = 6,
       Reason = [\<lparr>Line = ''if (write_ref(lock))'', Count = 1\<rparr>]\<rparr>,
      \<lparr>Target.Name = ''remote.c'', Commit = [example_b2, example_a1], Score = 2,
       Reason = [\<lparr>Line = ''if (write_ref(lock))'', Count = 1\<rparr>]\<rparr>]"
  by (simp add: example_churn analyse_defs example_replay)

theorem zero_thrash_excluded_witness:
  "(''refs.c,refs.h'',
      \<lparr>Target.Name = ''refs.c,refs.h'', Commit = [example_c3], Score = 8, Reason = []\<rparr>)
     \<in> set (churn example_commits) \<and>
   thrash_total (analyse example_diff
      \<lparr>Target.Name = ''refs.c,refs.h'', Commit = [example_c3], Score = 8, Reason = []\<rparr>) = 0 \<and>
   ''refs.c,refs.h'' \<notin> Target.Name ` set (ranked example_diff (churn example_commits)) \<and>
   Score (analyse example_diff
      \<lparr>Target.Name = ''refs.c'', Commit = example_commits, Score = 6, Reason = []\<rparr>) = 6 * 1"
proof -
  let ?u = "\<lparr>Target.Name = ''refs.c,refs.h'', Commit = [example_c3], Score = 8, Reason = []\<rparr>"
  let ?t = "\<lparr>Target.Name = ''refs.c'', Commit = example_commits, Score = 6, Reason = []\<rparr>"
  have mem: "(''refs.c,refs.h'', ?u) \<in> set (churn example_commits)"
    by (simp add: example_churn)
  have zero: "thrash_total (analyse example_diff ?u) = 0"
    by (simp add: thrash_total_def analyse_defs example_replay)
  note inst = zero_thrash_excluded
    [where git_diff = example_diff and commits = example_commits and n = "''refs.c,refs.h''"
      and u = ?u and t = ?t]
  from inst mem zero
  have "\<forall>t' \<in> set (ranked example_diff (churn example_commits)).
      Target.Name t' \<noteq> ''refs.c,refs.h''"
    by blast
  then have "''refs.c,refs.h'' \<notin> Target.Name ` set (ranked example_diff (churn example_commits))"
    by auto
  moreover from inst have "Score (analyse example_diff ?t) = 6 * 1"
    by (simp add: example_replay)
  ultimately show ?thesis
    using mem zero by blast
qed



theorem failed_fetch_is_skipped_witness:
  "example_diff (ID example_c3) = None \<and>
   replay_commits example_diff ([] @ example_c3 # [example_b2, example_a1])
     = replay_commits example_diff ([] @ [example_b2, example_a1]) \<and>
   Commit (analyse example_diff
      \<lparr>Target.Name = ''refs.c'', Commit = example_commits, Score = 6, Reason = []\<rparr>)
     = [example_c3, example_b2, example_a1] \<and>
   length (Commit (analyse example_diff
      \<lparr>Target.Name = ''refs.c'', Commit = example_commits, Score = 6, Reason = []\<rparr>)) = 3 \<and>
   Score (analyse example_diff
      \<lparr>Target.Name = ''refs.c'', Commit = example_commits, Score = 6, Reason = []\<rparr>) = 6 * 1"
proof -
  let ?t = "\<lparr>Target.Name = ''refs.c'', Commit = example_commits, Score = 6, Reason = []\<rparr>"
  have failed: "example_diff (ID example_c3) = None"
    by (simp add: example_diff_def example_c3_def)
  have members: "Commit ?t = [] @ example_c3 # [example_b2, example_a1]"
    by (simp add: example_commits_def)
  from failed_fetch_is_skipped
    [where git_diff = example_diff and c = example_c3 and before = "[]"
      and after = "[example_b2, example_a1]" and t = ?t]
    failed members
  show ?thesis
    by (simp add: example_replay example_commits_def)
qed

text \<open>
  Claim C6 does not hold of the code. The detail mode prints \<^verbatim>\<open>commit.ID[:7]\<close> for
  every member commit, and the slice panics when the identifier has fewer than
  seven bytes; the log parser accepts any non-empty identifier. On the example
  run, whose last commit header is \<^verbatim>\<open>commit a1\<close>, the report stops with that
  panic after the first two commit lines of the first Target.
\<close>

theorem report_panics_on_short_identifier:
  "main \<lparr>topTarget = 10, topReason = 3, detail = True\<rparr> (Some example_log) example_diff
     = ([TargetLine 6 ''refs.c'' 3,
         ReasonLine 1 ''if (write_ref(lock))'',
         CommitLine ''c3c3c3c'' ''tidy lock handling'' ''Ann'',
         CommitLine ''b2b2b2b'' ''rework lock'' []],
        Some PanicSliceBounds)"
proof -
  have "main \<lparr>topTarget = 10, topReason = 3, detail = True\<rparr> (Some example_log) example_diff
      = report \<lparr>topTarget = 10, topReason = 3, detail = True\<rparr>
          (ranked example_diff (churn example_commits)) (length example_commits)"
    by (simp add: main_def example_parse)
  then show ?thesis
    unfolding example_ranked
    by (simp add: report_def shorten_def slice_to_def
        example_commits_def example_c3_def example_b2_def example_a1_def)
qed

end
